theory Spec2Isabelle
  imports Main "HOL-Library.AList" "HOL-Library.Sublist" "HOL-Library.Char_ord"
    "HOL-Library.List_Lexorder"
begin

section \<open>Git Tutor: the simulated repository of \<^verbatim>\<open>git_tutor/script.js\<close>\<close>

text \<open>
  The embedding follows class \<^verbatim>\<open>SimulatedRepo\<close> and class \<^verbatim>\<open>RemoteStore\<close>.

  \<^item> A JavaScript object used as a dictionary is an association list with distinct keys
    in insertion order: \<^verbatim>\<open>o[k] = v\<close> is \<open>AList.update\<close> (replace in place, else
    append), \<^verbatim>\<open>delete o[k]\<close> is \<open>AList.delete\<close>, \<^verbatim>\<open>Object.keys(o)\<close> is
    \<open>map fst\<close>, \<^verbatim>\<open>o[k]\<close> is \<open>map_of o k\<close> with \<open>None\<close> for \<^verbatim>\<open>undefined\<close>.
    Keys are the object's own properties (no key is a property name of
    \<^verbatim>\<open>Object.prototype\<close>).
  \<^item> \<^verbatim>\<open>null\<close> in a place that otherwise holds a string is \<open>None\<close> of an option.
  \<^item> Strings are lists of 8-bit characters; text outside ASCII in the messages of the
    program is carried as its UTF-8 bytes, and white space is ASCII white space.
  \<^item> \<^verbatim>\<open>deepCopy\<close> (a JSON round trip) is the identity on the values of the model; where
    the source hands it \<^verbatim>\<open>undefined\<close>, \<^verbatim>\<open>JSON.parse\<close> throws, and the model
    returns the exception.
  \<^item> \<^verbatim>\<open>genHash()\<close>, \<^verbatim>\<open>nowMs()\<close> and \<^verbatim>\<open>toLocaleString()\<close> read the outside world:
    a command gets their values in an environment record.
  \<^item> Every method mutates \<^verbatim>\<open>this\<close>; the model returns the new repository beside the
    result, and the new remote store where the method is given one.
\<close>

subsection \<open>Values\<close>

type_synonym path = string
type_synonym hash = string
type_synonym 'v obj = "(string \<times> 'v) list"

definition hasOwn :: "'v obj \<Rightarrow> string \<Rightarrow> bool" where
  "hasOwn m k = (map_of m k \<noteq> None)"

text \<open>JavaScript truthiness of a value that is a string, \<^verbatim>\<open>null\<close> or \<^verbatim>\<open>undefined\<close>.\<close>

definition truthy :: "string option \<Rightarrow> bool" where
  "truthy v = (case v of None \<Rightarrow> False | Some s \<Rightarrow> s \<noteq> [])"

text \<open>\<^verbatim>\<open>Array.from(new Set(xs))\<close>: the first occurrence of each element, in order.\<close>

definition uniq :: "'a list \<Rightarrow> 'a list" where
  "uniq xs = rev (remdups (rev xs))"

record commit =
  hash :: hash
  message :: string
  parents :: "hash list"
  timestamp :: int
  files :: "string obj"
  lane :: nat
  branch :: string

record merge_state =
  theirBranch :: string
  theirHash :: "hash option"
  conflicts :: "path list"

record stash_entry =
  s_message :: string
  s_workingFiles :: "string obj"
  s_stagedFiles :: "string option obj"
  s_createdAt :: int

record branch_meta =
  m_lane :: nat
  m_color :: string

record upstream =
  u_remote :: string
  u_branch :: string

datatype event =
    Fs_write path
  | Fs_mkdir path
  | Fs_touch path
  | Fs_rm path
  | Git_init
  | Git_add "string list"
  | Git_commit hash string
  | Git_branch_create string
  | Git_checkout_new string
  | Git_checkout string
  | Git_merge_ff string
  | Git_merge_conflict string "string list"
  | Git_merge string
  | Git_remote_add string string
  | Git_push string string
  | Git_pull_ff string string
  | Git_pull_merge string string
  | Git_clone string
  | Git_stash
  | Git_stash_pop
  | Git_reset_hard string
  | Git_revert hash

record repo =
  initialized :: bool
  cwd :: string
  directories :: "bool obj"
  workingFiles :: "string obj"
  stagedFiles :: "string option obj"
  commits :: "commit obj"
  commitOrder :: "hash list"
  branches :: "hash option obj"
  currentBranch :: string
  branchMeta :: "branch_meta obj"
  nextLane :: nat
  mergeState :: "merge_state option"
  remotes :: "string obj"
  upstreams :: "upstream obj"
  stash :: "stash_entry list"
  lastEvent :: "event option"

definition BRANCH_COLORS :: "string list" where
  "BRANCH_COLORS = [''#4cc9f0'', ''#b392f0'', ''#2ee59d'', ''#ffd166'', ''#ff5470'', ''#ff9f1c'']"

text \<open>\<^verbatim>\<open>reset()\<close>, the state of a new \<^verbatim>\<open>SimulatedRepo\<close>.\<close>

definition reset :: repo where
  "reset = \<lparr> initialized = False, cwd = ''/'', directories = [(''/'', True)],
     workingFiles = [], stagedFiles = [], commits = [], commitOrder = [],
     branches = [(''main'', None)], currentBranch = ''main'',
     branchMeta = [(''main'', \<lparr> m_lane = 0, m_color = BRANCH_COLORS ! 0 \<rparr>)],
     nextLane = 1, mergeState = None, remotes = [], upstreams = [], stash = [],
     lastEvent = None \<rparr>"

subsection \<open>Strings, paths and the command line\<close>

definition is_space :: "char \<Rightarrow> bool" where
  "is_space c = (c \<in> set [CHR 0x09, CHR 0x0A, CHR 0x0B, CHR 0x0C, CHR 0x0D, CHR 0x20])"

definition trim :: "string \<Rightarrow> string" where
  "trim s = rev (dropWhile is_space (rev (dropWhile is_space s)))"

text \<open>\<^verbatim>\<open>s.split(c)\<close> for a one-character separator: \<^verbatim>\<open>"".split("/")\<close> is \<^verbatim>\<open>[""]\<close>.\<close>

fun split_on :: "char \<Rightarrow> string \<Rightarrow> string list" where
  "split_on c [] = [[]]"
| "split_on c (x # xs) =
     (if x = c then [] # split_on c xs
      else (case split_on c xs of [] \<Rightarrow> [[x]] | y # ys \<Rightarrow> (x # y) # ys))"

fun join_with :: "string \<Rightarrow> string list \<Rightarrow> string" where
  "join_with sep [] = []"
| "join_with sep [x] = x"
| "join_with sep (x # y # ys) = x @ sep @ join_with sep (y # ys)"

definition path_parts :: "string \<Rightarrow> string list" where
  "path_parts raw = filter (\<lambda>p. p \<noteq> []) (split_on CHR ''/'' raw)"

text \<open>The loop of \<^verbatim>\<open>normalizePath\<close>; the stack grows at its end, \<^verbatim>\<open>pop\<close> on the empty
  stack does nothing.\<close>

definition normalize_step :: "string \<Rightarrow> string list \<Rightarrow> string list" where
  "normalize_step part stack =
     (if part = ''.'' \<or> part = [] then stack
      else if part = ''..'' then butlast stack
      else stack @ [part])"

definition normalizePath :: "string \<Rightarrow> string" where
  "normalizePath inputPath =
     (let raw = map (\<lambda>c. if c = CHR 0x5C then CHR ''/'' else c) inputPath
      in ''/'' @ join_with ''/'' (fold normalize_step (path_parts raw) []))"

definition joinPath :: "string \<Rightarrow> string \<Rightarrow> string" where
  "joinPath cwd0 rel =
     (if prefix ''/'' rel then normalizePath rel
      else let base = (if cwd0 = [] then ''/'' else cwd0);
               combined = (if suffix ''/'' base then base @ rel else base @ ''/'' @ rel)
           in normalizePath combined)"

definition dirname :: "string \<Rightarrow> string" where
  "dirname p0 =
     (let p = normalizePath p0
      in if p = ''/'' then ''/'' else ''/'' @ join_with ''/'' (butlast (path_parts p)))"

definition basename :: "string \<Rightarrow> string" where
  "basename p0 =
     (let p = normalizePath p0
      in if p = ''/'' then ''/''
         else (case rev (path_parts p) of [] \<Rightarrow> ''/'' | x # _ \<Rightarrow> if x = [] then ''/'' else x))"

definition relPath :: "string \<Rightarrow> string" where
  "relPath absPath =
     (let p = normalizePath absPath
      in if p = ''/'' then ''/'' else if prefix ''/'' p then drop 1 p else p)"

text \<open>\<^verbatim>\<open>shortHash\<close>; the dash of the source is U+2014.\<close>

definition em_dash :: string where
  "em_dash = [CHR 0xE2, CHR 0x80, CHR 0x94]"

definition ellipsis :: string where
  "ellipsis = [CHR 0xE2, CHR 0x80, CHR 0xA6]"

definition shortHash :: "hash option \<Rightarrow> string" where
  "shortHash h = (if \<not> truthy h then em_dash else take 7 (the h))"

text \<open>Decimal digits of a number, as template strings print it.\<close>

fun show_nat :: "nat \<Rightarrow> string" where
  "show_nat n =
     (if n < 10 then [char_of (48 + n)] else show_nat (n div 10) @ [char_of (48 + n mod 10)])"

text \<open>
  The loop of \<^verbatim>\<open>splitArgs\<close> over the characters of the trimmed line, with the state
  (\<^verbatim>\<open>tokens\<close>, \<^verbatim>\<open>current\<close>, \<^verbatim>\<open>inQuotes\<close>).
\<close>

fun splitArgs_loop :: "string \<Rightarrow> string list \<Rightarrow> string \<Rightarrow> bool \<Rightarrow> string list" where
  "splitArgs_loop [] tokens current inQuotes =
     (if current \<noteq> [] then tokens @ [current] else tokens)"
| "splitArgs_loop (ch # rest) tokens current inQuotes =
     (if ch = CHR 0x22 then splitArgs_loop rest tokens current (\<not> inQuotes)
      else if \<not> inQuotes \<and> is_space ch then
        splitArgs_loop rest (if current \<noteq> [] then tokens @ [current] else tokens) [] inQuotes
      else splitArgs_loop rest tokens (current @ [ch]) inQuotes)"

definition splitArgs :: "string \<Rightarrow> string list" where
  "splitArgs line = (let input = trim line in if input = [] then [] else splitArgs_loop input [] [] False)"

definition strip_quotes :: "string \<Rightarrow> string" where
  "strip_quotes s = rev (dropWhile (\<lambda>c. c = CHR 0x22) (rev (dropWhile (\<lambda>c. c = CHR 0x22) s)))"

text \<open>\<^verbatim>\<open>parseEchoRedirection\<close>: \<open>None\<close> is \<^verbatim>\<open>null\<close>, else the pair (\<^verbatim>\<open>text\<close>, \<^verbatim>\<open>fileArg\<close>).\<close>

definition parseEchoRedirection :: "string \<Rightarrow> (string \<times> string) option" where
  "parseEchoRedirection line =
     (let trimmed = trim line
      in if \<not> prefix ''echo '' trimmed then None
         else if CHR ''>'' \<notin> set trimmed then None
         else let left = trim (takeWhile (\<lambda>c. c \<noteq> CHR ''>'') trimmed);
                  right = trim (drop 1 (dropWhile (\<lambda>c. c \<noteq> CHR ''>'') trimmed));
                  fileArg = strip_quotes right;
                  leftTokens = splitArgs left
              in Some (join_with '' '' (drop 1 leftTokens), fileArg))"

text \<open>\<^verbatim>\<open>text.replaceAll("\\n", "\n")\<close>: a backslash followed by \<^verbatim>\<open>n\<close> becomes a line feed.\<close>

fun unescape_nl :: "string \<Rightarrow> string" where
  "unescape_nl (a # b # rest) =
     (if a = CHR 0x5C \<and> b = CHR ''n'' then CHR 0x0A # unescape_nl rest
      else a # unescape_nl (b # rest))"
| "unescape_nl xs = xs"

text \<open>\<^verbatim>\<open>args[i]\<close>, \<open>None\<close> for \<^verbatim>\<open>undefined\<close>.\<close>

definition arg :: "string list \<Rightarrow> nat \<Rightarrow> string option" where
  "arg args i = (if i < length args then Some (args ! i) else None)"

subsection \<open>Results, exceptions and the outside world\<close>

record result =
  ok :: bool
  exitCode :: nat
  stdout :: "string list"
  stderr :: "string list"

definition success :: "string list \<Rightarrow> result" where
  "success out = \<lparr> ok = True, exitCode = 0, stdout = out, stderr = [] \<rparr>"

definition failure :: "string list \<Rightarrow> result" where
  "failure err = \<lparr> ok = False, exitCode = 1, stdout = [], stderr = err \<rparr>"

datatype js_error = Error string | SyntaxError

type_synonym outcome = "js_error + result"

record env =
  genHash :: hash
  nowMs :: int
  toLocaleString :: "int \<Rightarrow> string"

subsection \<open>The remote store\<close>

record remote_repo =
  r_url :: string
  r_commits :: "commit obj"
  r_commitOrder :: "hash list"
  r_branches :: "hash option obj"

type_synonym remote_store = "remote_repo obj"

definition createEmptyRemote :: "string \<Rightarrow> remote_repo" where
  "createEmptyRemote u = \<lparr> r_url = u, r_commits = [], r_commitOrder = [], r_branches = [(''main'', None)] \<rparr>"

text \<open>\<^verbatim>\<open>ensureRepo\<close> throws on a blank URL; else it returns the remote stored under the
  trimmed URL, beside the store, to which the empty remote was added when the URL was
  unknown. The caller's writes to the remote go back into the store under that key.\<close>

definition ensureRepo :: "remote_store \<Rightarrow> string \<Rightarrow> js_error + (remote_store \<times> remote_repo)" where
  "ensureRepo store u =
     (let normalized = trim u
      in if normalized = [] then Inl (Error ''Remote URL is required.'')
         else (case map_of store normalized of
                 None \<Rightarrow> Inr (AList.update normalized (createEmptyRemote normalized) store,
                               createEmptyRemote normalized)
               | Some r \<Rightarrow> Inr (store, r)))"

definition getRepo :: "remote_store \<Rightarrow> string \<Rightarrow> remote_repo option" where
  "getRepo store u = map_of store (trim u)"

subsection \<open>HEAD and snapshots\<close>

text \<open>\<^verbatim>\<open>get head()\<close>: \<^verbatim>\<open>this.branches[this.currentBranch] ?? null\<close>.\<close>

definition head :: "repo \<Rightarrow> hash option" where
  "head s = (case map_of (branches s) (currentBranch s) of None \<Rightarrow> None | Some h \<Rightarrow> h)"

definition set_head :: "hash option \<Rightarrow> repo \<Rightarrow> repo" where
  "set_head h s = s\<lparr> branches := AList.update (currentBranch s) h (branches s) \<rparr>"

definition getSnapshot :: "repo \<Rightarrow> hash option \<Rightarrow> string obj" where
  "getSnapshot s h =
     (if \<not> truthy h then []
      else case map_of (commits s) (the h) of None \<Rightarrow> [] | Some c \<Rightarrow> files c)"

definition getHeadSnapshot :: "repo \<Rightarrow> string obj" where
  "getHeadSnapshot s = getSnapshot s (head s)"

definition listAllPaths :: "repo \<Rightarrow> path list" where
  "listAllPaths s =
     sort (uniq (map fst (workingFiles s) @ map fst (getHeadSnapshot s) @ map fst (stagedFiles s)))"

subsection \<open>Status\<close>

record status =
  st_branch :: string
  st_initialized :: bool
  hasCommits :: bool
  staged :: "(path \<times> string) list"
  unstaged :: "(path \<times> string) list"
  untracked :: "(path \<times> string) list"
  st_mergeState :: "merge_state option"
  st_conflicts :: "path list"
  isDirty :: bool

definition conflicts_of :: "repo \<Rightarrow> path list" where
  "conflicts_of s = (case mergeState s of None \<Rightarrow> [] | Some m \<Rightarrow> conflicts m)"

type_synonym status_acc = "(path \<times> string) list \<times> (path \<times> string) list \<times> (path \<times> string) list"

text \<open>
  The body of the loop of \<^verbatim>\<open>getStatus\<close> for one path; the accumulator holds the arrays
  \<^verbatim>\<open>staged\<close>, \<^verbatim>\<open>unstaged\<close> and \<^verbatim>\<open>untracked\<close>, and each \<^verbatim>\<open>continue\<close> ends the
  step. \<open>indexContent\<close> and \<open>indexBaseline\<close> are \<open>None\<close> for \<^verbatim>\<open>undefined\<close>.
\<close>

definition status_step :: "repo \<Rightarrow> path \<Rightarrow> status_acc \<Rightarrow> status_acc" where
  "status_step s p acc =
     (let headSnap = getHeadSnapshot s;
          headHas = hasOwn headSnap p;
          workHas = hasOwn (workingFiles s) p;
          stageHas = hasOwn (stagedFiles s) p;
          headContent = map_of headSnap p;
          workContent = map_of (workingFiles s) p;
          stagedContent = (case map_of (stagedFiles s) p of None \<Rightarrow> None | Some v \<Rightarrow> v)
      in if p \<in> set (conflicts_of s) then acc
         else
           (case acc of (sg, us, ut) \<Rightarrow>
            let indexContent = stagedContent;
                sg' = (if stageHas then
                         (if \<not> headHas \<and> indexContent \<noteq> None then sg @ [(p, ''A'')]
                          else if headHas \<and> indexContent = None then sg @ [(p, ''D'')]
                          else if headHas \<and> indexContent \<noteq> headContent then sg @ [(p, ''M'')]
                          else sg)
                       else sg);
                indexBaseline = (if stageHas then stagedContent else headContent)
            in if \<not> headHas \<and> workHas then (sg', us, ut @ [(p, ''A'')])
               else if headHas \<and> \<not> workHas then
                 (if \<not> stageHas then (sg', us @ [(p, ''D'')], ut) else (sg', us, ut))
               else if headHas \<and> workHas \<and> workContent \<noteq> headContent then
                 (if workContent \<noteq> indexBaseline then (sg', us @ [(p, ''M'')], ut)
                  else (sg', us, ut))
               else (sg', us, ut)))"

definition getStatus :: "repo \<Rightarrow> status" where
  "getStatus s =
     (case fold (status_step s) (listAllPaths s) ([], [], []) of (sg, us, ut) \<Rightarrow>
        \<lparr> st_branch = currentBranch s,
          st_initialized = initialized s,
          hasCommits = (length (commitOrder s) > 0),
          staged = sg,
          unstaged = us,
          untracked = ut,
          st_mergeState = mergeState s,
          st_conflicts = conflicts_of s,
          isDirty = (length (stagedFiles s) > 0 \<or> length sg > 0 \<or> length us > 0
                     \<or> length ut > 0 \<or> length (conflicts_of s) > 0) \<rparr>)"

subsection \<open>The commit graph\<close>

text \<open>
  The loop of \<^verbatim>\<open>isAncestor\<close>: \<^verbatim>\<open>stack.pop()\<close> takes the last element pushed, so the
  head of the list is the top of the stack and the parents go on it reversed.
\<close>

function isAncestor_loop :: "commit obj \<Rightarrow> hash \<Rightarrow> hash list \<Rightarrow> hash list \<Rightarrow> bool" where
  "isAncestor_loop cs a seen [] = False"
| "isAncestor_loop cs a seen (cur # stack) =
     (if cur = [] \<or> cur \<in> set seen then isAncestor_loop cs a seen stack
      else if cur = a then True
      else (case map_of cs cur of
              None \<Rightarrow> isAncestor_loop cs a (cur # seen) stack
            | Some c \<Rightarrow> isAncestor_loop cs a (cur # seen) (rev (parents c) @ stack)))"
  by pat_completeness auto
termination
proof (relation "measures [\<lambda>(cs, a, seen, stack). card (fst ` set cs - set seen),
                            \<lambda>(cs, a, seen, stack). length stack]", goal_cases)
  case 1
  show ?case by simp
next
  case (2 cs a seen cur stack)
  show ?case by simp
next
  case (3 cs a seen cur stack)
  then have "cur \<notin> fst ` set cs" by (simp add: map_of_eq_None_iff)
  then have "fst ` set cs - set (cur # seen) = fst ` set cs - set seen" by auto
  then show ?case by simp
next
  case (4 cs a seen cur stack c)
  then have "cur \<in> fst ` set cs - set seen"
    by (auto dest: map_of_SomeD intro: rev_image_eqI)
  then have "card (fst ` set cs - set seen - {cur}) < card (fst ` set cs - set seen)"
    by (intro card_Diff1_less) auto
  moreover have "fst ` set cs - set (cur # seen) = fst ` set cs - set seen - {cur}" by auto
  ultimately show ?case by simp
qed

definition isAncestor :: "repo \<Rightarrow> hash option \<Rightarrow> hash option \<Rightarrow> bool" where
  "isAncestor s ancestorHash descendantHash =
     (if \<not> truthy ancestorHash \<or> \<not> truthy descendantHash then False
      else if ancestorHash = descendantHash then True
      else isAncestor_loop (commits s) (the ancestorHash) [] [the descendantHash])"

text \<open>
  The first loop of \<^verbatim>\<open>findCommonAncestor\<close> fills the map \<^verbatim>\<open>dist\<close> breadth first;
  \<^verbatim>\<open>queue.shift()\<close> takes the head of the list and \<^verbatim>\<open>push\<close> appends.
\<close>

function dist_loop :: "commit obj \<Rightarrow> (hash \<times> nat) list \<Rightarrow> (hash \<times> nat) list \<Rightarrow> (hash \<times> nat) list" where
  "dist_loop cs dist [] = dist"
| "dist_loop cs dist ((h, d) # queue) =
     (if h = [] \<or> hasOwn dist h then dist_loop cs dist queue
      else (case map_of cs h of
              None \<Rightarrow> dist_loop cs (dist @ [(h, d)]) queue
            | Some c \<Rightarrow> dist_loop cs (dist @ [(h, d)]) (queue @ map (\<lambda>p. (p, d + 1)) (parents c))))"
  by pat_completeness auto
termination
proof (relation "measures [\<lambda>(cs, dist, queue). card (fst ` set cs - fst ` set dist),
                            \<lambda>(cs, dist, queue). length queue]", goal_cases)
  case 1
  show ?case by simp
next
  case (2 cs dist h d queue)
  show ?case by simp
next
  case (3 cs dist h d queue)
  then have "h \<notin> fst ` set cs" by (simp add: map_of_eq_None_iff)
  then have "fst ` set cs - fst ` set (dist @ [(h, d)]) = fst ` set cs - fst ` set dist" by auto
  then show ?case by simp
next
  case (4 cs dist h d queue c)
  then have "h \<in> fst ` set cs - fst ` set dist"
    by (auto simp: hasOwn_def map_of_eq_None_iff dest: map_of_SomeD intro: rev_image_eqI)
  then have "card (fst ` set cs - fst ` set dist - {h}) < card (fst ` set cs - fst ` set dist)"
    by (intro card_Diff1_less) auto
  moreover have "fst ` set cs - fst ` set (dist @ [(h, d)]) = fst ` set cs - fst ` set dist - {h}"
    by auto
  ultimately show ?case by simp
qed

text \<open>
  The second loop keeps \<^verbatim>\<open>seen2\<close>, \<^verbatim>\<open>best\<close> and \<^verbatim>\<open>bestD\<close>; \<open>None\<close> for \<^verbatim>\<open>bestD\<close>
  is \<^verbatim>\<open>Infinity\<close>.
\<close>

definition better :: "(hash \<times> nat) list \<Rightarrow> hash \<Rightarrow> nat \<Rightarrow> hash option \<times> nat option \<Rightarrow> hash option \<times> nat option" where
  "better dist h d bb =
     (case map_of dist h of
        None \<Rightarrow> bb
      | Some dh \<Rightarrow>
          (let total = dh + d
           in if (case snd bb of None \<Rightarrow> True | Some bd \<Rightarrow> total < bd) then (Some h, Some total)
              else bb))"

function best_loop :: "commit obj \<Rightarrow> (hash \<times> nat) list \<Rightarrow> hash list \<Rightarrow> hash option \<times> nat option
    \<Rightarrow> (hash \<times> nat) list \<Rightarrow> hash option" where
  "best_loop cs dist seen2 bb [] = fst bb"
| "best_loop cs dist seen2 bb ((h, d) # queue) =
     (if h = [] \<or> h \<in> set seen2 then best_loop cs dist seen2 bb queue
      else (case map_of cs h of
              None \<Rightarrow> best_loop cs dist (h # seen2) (better dist h d bb) queue
            | Some c \<Rightarrow> best_loop cs dist (h # seen2) (better dist h d bb)
                          (queue @ map (\<lambda>p. (p, d + 1)) (parents c))))"
  by pat_completeness auto
termination
proof (relation "measures [\<lambda>(cs, dist, seen2, bb, queue). card (fst ` set cs - set seen2),
                            \<lambda>(cs, dist, seen2, bb, queue). length queue]", goal_cases)
  case 1
  show ?case by simp
next
  case (2 cs dist seen2 bb h d queue)
  show ?case by simp
next
  case (3 cs dist seen2 bb h d queue)
  then have "h \<notin> fst ` set cs" by (simp add: map_of_eq_None_iff)
  then have "fst ` set cs - set (h # seen2) = fst ` set cs - set seen2" by auto
  then show ?case by simp
next
  case (4 cs dist seen2 bb h d queue c)
  then have "h \<in> fst ` set cs - set seen2"
    by (auto dest: map_of_SomeD intro: rev_image_eqI)
  then have "card (fst ` set cs - set seen2 - {h}) < card (fst ` set cs - set seen2)"
    by (intro card_Diff1_less) auto
  moreover have "fst ` set cs - set (h # seen2) = fst ` set cs - set seen2 - {h}" by auto
  ultimately show ?case by simp
qed

definition findCommonAncestor :: "repo \<Rightarrow> hash option \<Rightarrow> hash option \<Rightarrow> hash option" where
  "findCommonAncestor s a b =
     (if \<not> truthy a \<or> \<not> truthy b then None
      else if a = b then a
      else best_loop (commits s) (dist_loop (commits s) [] [(the a, 0)]) [] (None, None) [(the b, 0)])"

subsection \<open>Git commands: init, status, add, commit\<close>

text \<open>The result of \<^verbatim>\<open>ensureInitialized\<close> on a repository that is not initialized; the
  source leaves \<^verbatim>\<open>stdout\<close> out of this object, and the terminal prints nothing for it.\<close>

definition not_a_repository :: result where
  "not_a_repository = failure [''fatal: not a git repository (simulated)'']"

definition new_meta :: "repo \<Rightarrow> branch_meta" where
  "new_meta s = \<lparr> m_lane = nextLane s, m_color = BRANCH_COLORS ! (nextLane s mod length BRANCH_COLORS) \<rparr>"

definition ensureBranchMeta :: "string \<Rightarrow> repo \<Rightarrow> repo" where
  "ensureBranchMeta branchName s =
     (case map_of (branchMeta s) branchName of
        Some m \<Rightarrow> s
      | None \<Rightarrow> s\<lparr> branchMeta := AList.update branchName (new_meta s) (branchMeta s),
                   nextLane := nextLane s + 1 \<rparr>)"

text \<open>\<^verbatim>\<open>if (!this.branches.main) this.branches.main = this.branches.main ?? null\<close>\<close>

definition ensure_main :: "hash option obj \<Rightarrow> hash option obj" where
  "ensure_main bs =
     (if \<not> truthy (case map_of bs ''main'' of None \<Rightarrow> None | Some h \<Rightarrow> h)
      then AList.update ''main'' (case map_of bs ''main'' of None \<Rightarrow> None | Some h \<Rightarrow> h) bs
      else bs)"

definition gitInit :: "repo \<Rightarrow> result \<times> repo" where
  "gitInit s =
     (let already = initialized s;
          s1 = s\<lparr> initialized := True, branches := ensure_main (branches s) \<rparr>;
          s2 = (if currentBranch s1 = [] then s1\<lparr> currentBranch := ''main'' \<rparr> else s1);
          s3 = s2\<lparr> lastEvent := Some Git_init \<rparr>
      in (success [if already then ''Reinitialized existing Git repository (simulated).''
                   else ''Initialized empty Git repository (simulated).''], s3))"

definition statusLabel :: "string \<Rightarrow> string" where
  "statusLabel code =
     (if code = ''A'' then ''new file'' else if code = ''M'' then ''modified''
      else if code = ''D'' then ''deleted'' else ''changed'')"

definition section_lines :: "string \<Rightarrow> string list \<Rightarrow> string list" where
  "section_lines title lines =
     (if lines = [] then [] else [[], title] @ map (\<lambda>l. ''  '' @ l) lines)"

definition gitStatus :: "repo \<Rightarrow> result \<times> repo" where
  "gitStatus s =
     (if \<not> initialized s then (not_a_repository, s)
      else
        let st = getStatus s;
            labelled = (\<lambda>(p, code). statusLabel code @ '':   '' @ relPath p);
            out = [''On branch '' @ st_branch st]
              @ (if \<not> hasCommits st then [''No commits yet''] else [])
              @ (if st_mergeState st \<noteq> None then
                   [[], ''You are in the middle of a merge.'',
                    if st_conflicts st \<noteq> []
                    then ''  (fix conflicts and run '' @ [CHR 0x22] @ ''git add <file>'' @ [CHR 0x22]
                           @ '' then '' @ [CHR 0x22] @ ''git commit'' @ [CHR 0x22] @ '')''
                    else ''  (all conflicts fixed: run '' @ [CHR 0x22] @ ''git commit'' @ [CHR 0x22]
                           @ '' to conclude merge)'']
                 else [])
              @ section_lines ''Changes to be committed:'' (map labelled (staged st))
              @ section_lines ''Changes not staged for commit:'' (map labelled (unstaged st))
              @ section_lines ''Untracked files:'' (map (\<lambda>(p, code). relPath p) (untracked st))
              @ (if staged st = [] \<and> unstaged st = [] \<and> untracked st = [] \<and> st_conflicts st = []
                 then [[], ''nothing to commit, working tree clean''] else [])
              @ (if st_conflicts st \<noteq> []
                 then [[], ''Unmerged paths:''] @ map (\<lambda>p. ''  both modified: '' @ relPath p) (st_conflicts st)
                 else [])
        in (success out, s))"

text \<open>
  The loop of \<^verbatim>\<open>gitAdd\<close> over the targets, with the state (\<^verbatim>\<open>this.stagedFiles\<close>, the set
  \<^verbatim>\<open>conflicts\<close>, \<^verbatim>\<open>added\<close>, \<^verbatim>\<open>errors\<close>).
\<close>

type_synonym add_acc = "string option obj \<times> path list \<times> path list \<times> string list"

definition add_step :: "repo \<Rightarrow> path \<Rightarrow> add_acc \<Rightarrow> add_acc" where
  "add_step s p acc =
     (case acc of (stg, confl, added, errors) \<Rightarrow>
        if hasOwn (workingFiles s) p
          then (AList.update p (map_of (workingFiles s) p) stg, removeAll p confl, added @ [p], errors)
        else if hasOwn (getHeadSnapshot s) p
          then (AList.update p None stg, confl, added @ [p], errors)
        else (stg, confl, added,
              errors @ [''fatal: pathspec '' @ [CHR 0x27] @ relPath p @ [CHR 0x27] @ '' did not match any files'']))"

definition add_targets :: "repo \<Rightarrow> string list \<Rightarrow> path list" where
  "add_targets s args =
     (if ''.'' \<in> set args \<or> ''-A'' \<in> set args \<or> ''--all'' \<in> set args
      then uniq (map fst (workingFiles s) @ map fst (getHeadSnapshot s))
      else map (joinPath (cwd s)) args)"

definition gitAdd :: "string list \<Rightarrow> repo \<Rightarrow> result \<times> repo" where
  "gitAdd args s =
     (if \<not> initialized s then (not_a_repository, s)
      else if args = [] then (failure [''fatal: pathspec is required''], s)
      else
        (case fold (add_step s) (add_targets s args) (stagedFiles s, uniq (conflicts_of s), [], []) of
           (stg, confl, added, errors) \<Rightarrow>
             let s1 = s\<lparr> stagedFiles := stg \<rparr>;
                 s2 = (case mergeState s1 of
                         None \<Rightarrow> s1
                       | Some m \<Rightarrow> s1\<lparr> mergeState := Some (m\<lparr> conflicts := confl \<rparr>) \<rparr>)
             in if errors \<noteq> [] then (failure errors, s2)
                else (success [], s2\<lparr> lastEvent := Some (Git_add (map relPath added)) \<rparr>)))"

text \<open>The search for \<^verbatim>\<open>-m\<close> in \<^verbatim>\<open>gitCommit\<close>: the first \<^verbatim>\<open>-m\<close> that is followed by an
  argument gives the message; the empty string is no message.\<close>

fun find_message :: "string list \<Rightarrow> string" where
  "find_message (a # b # rest) = (if a = ''-m'' then b else find_message (b # rest))"
| "find_message args = []"

definition overlay_step :: "path \<times> string option \<Rightarrow> string obj \<Rightarrow> string obj" where
  "overlay_step e snap =
     (case snd e of None \<Rightarrow> AList.delete (fst e) snap | Some content \<Rightarrow> AList.update (fst e) content snap)"

definition overlay :: "string option obj \<Rightarrow> string obj \<Rightarrow> string obj" where
  "overlay stg snap = fold overlay_step stg snap"

definition gitCommit :: "string list \<Rightarrow> env \<Rightarrow> repo \<Rightarrow> result \<times> repo" where
  "gitCommit args e s =
     (if \<not> initialized s then (not_a_repository, s)
      else
        let st = getStatus s;
            hasStaged = (length (staged st) > 0 \<or> length (stagedFiles s) > 0)
        in if \<not> hasStaged then (failure [''nothing to commit (no staged changes)''], s)
           else if length (conflicts_of s) > 0
             then (failure [''error: Committing is not possible because you have unmerged files.''], s)
           else
             let m0 = find_message args;
                 msg = (if m0 = [] then
                          (case mergeState s of
                             Some m \<Rightarrow> ''Merge branch '' @ [CHR 0x27] @ theirBranch m @ [CHR 0x27]
                           | None \<Rightarrow> ''Commit'')
                        else m0);
                 ps = (if truthy (head s) then [the (head s)] else [])
                    @ (case mergeState s of
                         None \<Rightarrow> []
                       | Some m \<Rightarrow> if truthy (theirHash m) then [the (theirHash m)] else []);
                 next = overlay (stagedFiles s) (getHeadSnapshot s);
                 h = genHash e;
                 s1 = ensureBranchMeta (currentBranch s) s;
                 meta = (case map_of (branchMeta s) (currentBranch s) of Some m \<Rightarrow> m | None \<Rightarrow> new_meta s);
                 c = \<lparr> hash = h, message = msg, parents = ps, timestamp = nowMs e, files = next,
                       lane = m_lane meta, branch = currentBranch s \<rparr>;
                 s2 = s1\<lparr> commits := AList.update h c (commits s1),
                          commitOrder := commitOrder s1 @ [h] \<rparr>;
                 s3 = set_head (Some h) s2;
                 s4 = s3\<lparr> workingFiles := overlay (stagedFiles s) (workingFiles s3),
                          stagedFiles := [], mergeState := None,
                          lastEvent := Some (Git_commit h msg) \<rparr>;
                 n = (if length (staged st) \<noteq> 0 then length (staged st) else length next)
             in (success [''['' @ currentBranch s @ '' '' @ shortHash (Some h) @ ''] '' @ msg,
                          show_nat n @ '' file(s) changed (simulated)''], s4))"

subsection \<open>Git commands: log, branch, checkout, merge\<close>

text \<open>\<^verbatim>\<open>a || b\<close> on strings that may be \<^verbatim>\<open>undefined\<close>.\<close>

definition or_else :: "string option \<Rightarrow> string option \<Rightarrow> string option" where
  "or_else a b = (if truthy a then a else b)"

definition first_parent :: "commit \<Rightarrow> hash option" where
  "first_parent c = or_else (case parents c of [] \<Rightarrow> None | p # _ \<Rightarrow> Some p) None"

definition log_lines :: "bool \<Rightarrow> (int \<Rightarrow> string) \<Rightarrow> commit \<Rightarrow> string list" where
  "log_lines oneline fmt c =
     (if oneline then [shortHash (Some (hash c)) @ '' '' @ message c]
      else [''commit '' @ hash c, ''Date:   '' @ fmt (timestamp c), [], ''    '' @ message c, []])"

function log_loop :: "commit obj \<Rightarrow> bool \<Rightarrow> (int \<Rightarrow> string) \<Rightarrow> hash list \<Rightarrow> hash option
    \<Rightarrow> string list \<Rightarrow> string list" where
  "log_loop cs oneline fmt seen cur out =
     (if \<not> truthy cur \<or> the cur \<in> set seen then out
      else (case map_of cs (the cur) of
              None \<Rightarrow> out
            | Some c \<Rightarrow> log_loop cs oneline fmt (the cur # seen) (first_parent c)
                          (out @ log_lines oneline fmt c)))"
  by pat_completeness auto
termination
proof (relation "measure (\<lambda>(cs, oneline, fmt, seen, cur, out). card (fst ` set cs - set seen))",
    goal_cases)
  case 1
  show ?case by simp
next
  case (2 cs oneline fmt seen cur out c)
  then have "the cur \<in> fst ` set cs - set seen"
    by (auto dest: map_of_SomeD intro: rev_image_eqI)
  then have "card (fst ` set cs - set seen - {the cur}) < card (fst ` set cs - set seen)"
    by (intro card_Diff1_less) auto
  moreover have "fst ` set cs - set (the cur # seen) = fst ` set cs - set seen - {the cur}" by auto
  ultimately show ?case by simp
qed

definition gitLog :: "string list \<Rightarrow> env \<Rightarrow> repo \<Rightarrow> result \<times> repo" where
  "gitLog args e s =
     (if \<not> initialized s then (not_a_repository, s)
      else if \<not> truthy (head s) then (failure [''fatal: your current branch has no commits''], s)
      else (success (log_loop (commits s) (''--oneline'' \<in> set args) (toLocaleString e) [] (head s) []), s))"

definition gitBranch :: "string list \<Rightarrow> repo \<Rightarrow> result \<times> repo" where
  "gitBranch args s =
     (if \<not> initialized s then (not_a_repository, s)
      else if \<not> truthy (arg args 0)
        then (success (map (\<lambda>b. if b = currentBranch s then ''* '' @ b else ''  '' @ b)
                        (sort (map fst (branches s)))), s)
      else
        let name = the (arg args 0)
        in if hasOwn (branches s) name
             then (failure [''fatal: A branch named '' @ [CHR 0x27] @ name @ [CHR 0x27] @ '' already exists.''], s)
           else
             let s1 = s\<lparr> branches := AList.update name (head s) (branches s) \<rparr>;
                 s2 = ensureBranchMeta name s1
             in (success [], s2\<lparr> lastEvent := Some (Git_branch_create name) \<rparr>))"

definition gitCheckout :: "string list \<Rightarrow> repo \<Rightarrow> result \<times> repo" where
  "gitCheckout args s =
     (if \<not> initialized s then (not_a_repository, s)
      else if isDirty (getStatus s)
        then (failure [''error: Your local changes would be overwritten by checkout (simulated).'',
                       ''Hint: commit, stash, or reset before switching branches.''], s)
      else if args = [] then (failure [''fatal: branch name required''], s)
      else if arg args 0 = Some ''-b'' then
        (if \<not> truthy (arg args 1) then (failure [''fatal: -b requires a branch name''], s)
         else
           let name = the (arg args 1)
           in if hasOwn (branches s) name
                then (failure [''fatal: A branch named '' @ [CHR 0x27] @ name @ [CHR 0x27] @ '' already exists.''], s)
              else
                let s1 = s\<lparr> branches := AList.update name (head s) (branches s) \<rparr>;
                    s2 = ensureBranchMeta name s1;
                    s3 = s2\<lparr> currentBranch := name \<rparr>;
                    s4 = s3\<lparr> workingFiles := getHeadSnapshot s3,
                             lastEvent := Some (Git_checkout_new name) \<rparr>
                in (success [''Switched to a new branch '' @ [CHR 0x27] @ name @ [CHR 0x27]], s4))
      else
        let name = the (arg args 0)
        in if \<not> hasOwn (branches s) name
             then (failure [''error: pathspec '' @ [CHR 0x27] @ name @ [CHR 0x27] @ '' did not match any branch''], s)
           else
             let s1 = s\<lparr> currentBranch := name \<rparr>;
                 s2 = ensureBranchMeta name s1;
                 s3 = s2\<lparr> workingFiles := getHeadSnapshot s2, stagedFiles := [], mergeState := None,
                          lastEvent := Some (Git_checkout name) \<rparr>
             in (success [''Switched to branch '' @ [CHR 0x27] @ name @ [CHR 0x27]], s3))"

text \<open>In \<^verbatim>\<open>gitMerge\<close> below, the two fast-forward branches of the source (no commit on
  the current branch; the current head is an ancestor of theirs) have the same body and are
  one branch of the model.\<close>

text \<open>The buffer written for a conflicting path; an absent side gives the empty text.\<close>

definition conflict_buffer :: "string option \<Rightarrow> string option \<Rightarrow> string \<Rightarrow> string" where
  "conflict_buffer o' t b =
     ''<<<<<<< HEAD'' @ [CHR 0x0A] @ (case o' of None \<Rightarrow> [] | Some x \<Rightarrow> x) @ [CHR 0x0A]
     @ ''======='' @ [CHR 0x0A] @ (case t of None \<Rightarrow> [] | Some x \<Rightarrow> x) @ [CHR 0x0A]
     @ ''>>>>>>> '' @ b @ [CHR 0x0A]"

definition put :: "path \<Rightarrow> string option \<Rightarrow> string obj \<Rightarrow> string obj" where
  "put p v m = (case v of None \<Rightarrow> AList.delete p m | Some x \<Rightarrow> AList.update p x m)"

text \<open>The body of the three-way loop of \<^verbatim>\<open>gitMerge\<close> for one path, on (\<^verbatim>\<open>merged\<close>,
  \<^verbatim>\<open>conflicts\<close>).\<close>

definition merge_step :: "string obj \<Rightarrow> string obj \<Rightarrow> string obj \<Rightarrow> string \<Rightarrow> path
    \<Rightarrow> string obj \<times> path list \<Rightarrow> string obj \<times> path list" where
  "merge_step base oursSnap theirsSnap tbranch p acc =
     (let b = map_of base p; o' = map_of oursSnap p; t = map_of theirsSnap p
      in if o' = t then (put p o' (fst acc), snd acc)
         else if o' = b then (put p t (fst acc), snd acc)
         else if t = b then (put p o' (fst acc), snd acc)
         else (AList.update p (conflict_buffer o' t tbranch) (fst acc), snd acc @ [p]))"

text \<open>The three-way loop of \<^verbatim>\<open>gitMerge\<close> over the paths of base, ours and theirs; it
  starts from a copy of ours and gives (\<^verbatim>\<open>merged\<close>, \<^verbatim>\<open>conflicts\<close>).\<close>

definition three_way :: "repo \<Rightarrow> hash option \<Rightarrow> hash option \<Rightarrow> string \<Rightarrow> string obj \<times> path list" where
  "three_way s ours theirs tbranch =
     (let baseHash = findCommonAncestor s ours theirs;
          base = getSnapshot s baseHash;
          oursSnap = getSnapshot s ours;
          theirsSnap = getSnapshot s theirs;
          paths = uniq (map fst base @ map fst oursSnap @ map fst theirsSnap)
      in fold (merge_step base oursSnap theirsSnap tbranch) paths (oursSnap, []))"

definition stage_all :: "string obj \<Rightarrow> string option obj \<Rightarrow> string option obj" where
  "stage_all snap stg = fold (\<lambda>(p, content). AList.update p (Some content)) snap stg"

definition stage_deletions :: "path list \<Rightarrow> string obj \<Rightarrow> string option obj \<Rightarrow> string option obj" where
  "stage_deletions ps present stg =
     fold (\<lambda>p m. if \<not> hasOwn present p then AList.update p None m else m) ps stg"

definition quoted :: "string \<Rightarrow> string" where
  "quoted x = [CHR 0x27] @ x @ [CHR 0x27]"

definition gitMerge :: "string list \<Rightarrow> env \<Rightarrow> repo \<Rightarrow> result \<times> repo" where
  "gitMerge args e s =
     (if \<not> initialized s then (not_a_repository, s)
      else if isDirty (getStatus s)
        then (failure [''error: cannot merge because you have local changes (simulated).'',
                       ''Hint: commit or stash first.''], s)
      else if \<not> truthy (arg args 0) then (failure [''fatal: branch name required''], s)
      else
        let tbranch = the (arg args 0)
        in if \<not> hasOwn (branches s) tbranch
             then (failure [''fatal: branch '' @ quoted tbranch @ '' not found''], s)
           else
             let ours = head s;
                 theirs = the (map_of (branches s) tbranch)
             in if \<not> truthy theirs then (success [''Already up to date.''], s)
                else if \<not> truthy ours \<or> isAncestor s ours theirs then
                  (let s1 = set_head theirs s;
                       s2 = s1\<lparr> workingFiles := getHeadSnapshot s1,
                                lastEvent := Some (Git_merge_ff tbranch) \<rparr>
                   in (success [''Fast-forward (simulated).''], s2))
                else if isAncestor s theirs ours then (success [''Already up to date.''], s)
                else
                  let oursSnap = getSnapshot s ours;
                      res = three_way s ours theirs tbranch;
                      merged = fst res;
                      confl = snd res;
                      s1 = s\<lparr> workingFiles := merged, stagedFiles := [] \<rparr>
                  in if confl \<noteq> [] then
                       (let s2 = s1\<lparr> mergeState := Some \<lparr> theirBranch = tbranch, theirHash = theirs,
                                                         conflicts = confl \<rparr>,
                                     lastEvent := Some (Git_merge_conflict tbranch (map relPath confl)) \<rparr>;
                            out = [''Auto-merging (simulated)'' @ ellipsis,
                                   ''CONFLICT (content): Merge conflict in '' @ relPath (hd confl)]
                                @ (if length confl > 1
                                   then [''('' @ show_nat (length confl - 1) @ '' more conflict(s))''] else [])
                                @ [''Fix conflicts, then run '' @ [CHR 0x22] @ ''git add <file>'' @ [CHR 0x22]
                                   @ '' and '' @ [CHR 0x22] @ ''git commit'' @ [CHR 0x22] @ ''.'']
                        in (\<lparr> ok = False, exitCode = 1, stdout = out, stderr = [] \<rparr>, s2))
                     else
                       (let s2 = s1\<lparr> mergeState := Some \<lparr> theirBranch = tbranch, theirHash = theirs,
                                                         conflicts = [] \<rparr> \<rparr>;
                            s3 = s2\<lparr> stagedFiles :=
                                     stage_deletions (map fst oursSnap) (workingFiles s2)
                                       (stage_all (workingFiles s2) (stagedFiles s2)) \<rparr>;
                            rc = gitCommit [''-m'', ''Merge branch '' @ quoted tbranch] e s3;
                            r = fst rc;
                            s4 = snd rc
                        in (r\<lparr> stdout := ''Merge made by Git Tutor (simulated).'' # stdout r \<rparr>,
                            s4\<lparr> lastEvent := Some (Git_merge tbranch) \<rparr>)))"

subsection \<open>Git commands: remote, push, pull, clone\<close>

definition gitRemote :: "string list \<Rightarrow> remote_store \<Rightarrow> repo \<Rightarrow> outcome \<times> repo \<times> remote_store" where
  "gitRemote args store s =
     (if \<not> initialized s then (Inr not_a_repository, s, store)
      else if \<not> truthy (arg args 0) then (Inr (success (sort (map fst (remotes s)))), s, store)
      else if arg args 0 = Some ''-v'' then
        (Inr (success (concat (map (\<lambda>name. [name @ [CHR 0x09] @ the (map_of (remotes s) name) @ '' (fetch)'',
                                               name @ [CHR 0x09] @ the (map_of (remotes s) name) @ '' (push)''])
                                (sort (map fst (remotes s)))))), s, store)
      else if arg args 0 = Some ''add'' then
        (if \<not> truthy (arg args 1) \<or> \<not> truthy (arg args 2)
           then (Inr (failure [''usage: git remote add <name> <url>'']), s, store)
         else
           let name = the (arg args 1); u = the (arg args 2)
           in if hasOwn (remotes s) name
                then (Inr (failure [''fatal: remote '' @ name @ '' already exists'']), s, store)
              else (case ensureRepo store u of
                      Inl err \<Rightarrow> (Inl err, s, store)
                    | Inr (store1, rr) \<Rightarrow>
                        (Inr (success []),
                         s\<lparr> remotes := AList.update name u (remotes s),
                            lastEvent := Some (Git_remote_add name u) \<rparr>, store1)))
      else (Inr (failure [''usage: git remote [-v] | git remote add <name> <url>'']), s, store))"

text \<open>
  The first loop of \<^verbatim>\<open>gitPush\<close> copies the commits the remote lacks, in the order of
  \<^verbatim>\<open>commitOrder\<close>. A hash of \<^verbatim>\<open>commitOrder\<close> with no commit is \<^verbatim>\<open>deepCopy(undefined)\<close>,
  which throws: the result is then \<open>Inl\<close> of the remote commits written so far.
\<close>

fun push_commits :: "commit obj \<Rightarrow> hash list \<Rightarrow> commit obj \<Rightarrow> commit obj + commit obj" where
  "push_commits local [] rc = Inr rc"
| "push_commits local (h # hs) rc =
     (if map_of rc h = None then
        (case map_of local h of
           None \<Rightarrow> Inl rc
         | Some c \<Rightarrow> push_commits local hs (AList.update h c rc))
      else push_commits local hs rc)"

definition upstream_remote :: "repo \<Rightarrow> string option" where
  "upstream_remote s = map_option u_remote (map_of (upstreams s) (currentBranch s))"

definition upstream_branch :: "repo \<Rightarrow> string option" where
  "upstream_branch s = map_option u_branch (map_of (upstreams s) (currentBranch s))"

text \<open>The remote and the branch that \<^verbatim>\<open>gitPush\<close> works on: the arguments without
  \<^verbatim>\<open>-u\<close> and \<^verbatim>\<open>--set-upstream\<close> name them, the upstream of the current branch, then
  \<^verbatim>\<open>origin\<close>, and the current branch are the defaults.\<close>

definition push_cleaned :: "string list \<Rightarrow> string list" where
  "push_cleaned args = filter (\<lambda>a. a \<noteq> ''-u'' \<and> a \<noteq> ''--set-upstream'') args"

definition push_remoteName :: "string list \<Rightarrow> repo \<Rightarrow> string" where
  "push_remoteName args s =
     the (or_else (or_else (arg (push_cleaned args) 0) (upstream_remote s)) (Some ''origin''))"

definition push_branchName :: "string list \<Rightarrow> repo \<Rightarrow> string" where
  "push_branchName args s = the (or_else (arg (push_cleaned args) 1) (Some (currentBranch s)))"

definition gitPush :: "string list \<Rightarrow> remote_store \<Rightarrow> repo \<Rightarrow> outcome \<times> repo \<times> remote_store" where
  "gitPush args store s =
     (if \<not> initialized s then (Inr not_a_repository, s, store)
      else
        let setUpstream = (''-u'' \<in> set args \<or> ''--set-upstream'' \<in> set args);
            remoteName = push_remoteName args s;
            branchName = push_branchName args s
        in (case map_of (remotes s) remoteName of
              None \<Rightarrow> (Inr (failure [''fatal: '' @ quoted remoteName @ '' does not appear to be a git remote'']),
                        s, store)
            | Some u \<Rightarrow>
               (case ensureRepo store u of
                  Inl err \<Rightarrow> (Inl err, s, store)
                | Inr (store1, rr) \<Rightarrow>
                    let localHead = (case map_of (branches s) branchName of None \<Rightarrow> None | Some h \<Rightarrow> h)
                    in if \<not> truthy localHead
                         then (Inr (failure [''error: src refspec '' @ branchName @ '' does not match any'']),
                               s, store1)
                       else
                         (case push_commits (commits s) (commitOrder s) (r_commits rr) of
                            Inl rc \<Rightarrow> (Inl SyntaxError, s,
                                        AList.update (trim u) (rr\<lparr> r_commits := rc \<rparr>) store1)
                          | Inr rc \<Rightarrow>
                              let order = r_commitOrder rr
                                    @ filter (\<lambda>h. h \<notin> set (r_commitOrder rr)) (commitOrder s);
                                  old = or_else (case map_of (r_branches rr) branchName of
                                                   None \<Rightarrow> None | Some h \<Rightarrow> h) None;
                                  rr1 = rr\<lparr> r_commits := rc, r_commitOrder := order,
                                            r_branches := AList.update branchName localHead (r_branches rr) \<rparr>;
                                  s1 = (if setUpstream
                                        then s\<lparr> upstreams := AList.update branchName
                                                   \<lparr> u_remote = remoteName, u_branch = branchName \<rparr> (upstreams s) \<rparr>
                                        else s);
                                  s2 = s1\<lparr> lastEvent := Some (Git_push remoteName branchName) \<rparr>;
                                  out = [''To '' @ u,
                                         ''   '' @ shortHash old @ ''..'' @ shortHash localHead @ ''  ''
                                           @ branchName @ '' -> '' @ branchName]
                                      @ (if setUpstream
                                         then [''Branch '' @ quoted branchName @ '' set up to track ''
                                               @ quoted (remoteName @ ''/'' @ branchName) @ ''. (simulated)'']
                                         else [])
                              in (Inr (success out), s2, AList.update (trim u) rr1 store1)))))"

text \<open>The import loop of \<^verbatim>\<open>gitPull\<close>, on (\<^verbatim>\<open>this.commits\<close>, \<^verbatim>\<open>this.commitOrder\<close>).\<close>

definition pull_step :: "remote_repo \<Rightarrow> hash \<Rightarrow> commit obj \<times> hash list \<Rightarrow> commit obj \<times> hash list" where
  "pull_step rr h acc =
     (case map_of (r_commits rr) h of
        None \<Rightarrow> acc
      | Some c \<Rightarrow> if map_of (fst acc) h = None then (AList.update h c (fst acc), snd acc @ [h]) else acc)"

text \<open>The remote and the branch that \<^verbatim>\<open>gitPull\<close> works on, the repository after its import
  loop, and, for histories that diverged, the name of the temporary branch and the
  repository that \<^verbatim>\<open>gitMerge\<close> is called on: the temporary branch points to the head of
  the branch of the remote.\<close>

definition pull_remoteName :: "string list \<Rightarrow> repo \<Rightarrow> string" where
  "pull_remoteName args s = the (or_else (or_else (arg args 0) (upstream_remote s)) (Some ''origin''))"

definition pull_branchName :: "string list \<Rightarrow> repo \<Rightarrow> string" where
  "pull_branchName args s =
     the (or_else (or_else (arg args 1) (upstream_branch s)) (Some (currentBranch s)))"

definition pull_import :: "remote_repo \<Rightarrow> repo \<Rightarrow> repo" where
  "pull_import rr s =
     (let imported = fold (pull_step rr) (r_commitOrder rr) (commits s, commitOrder s)
      in s\<lparr> commits := fst imported, commitOrder := snd imported \<rparr>)"

definition pull_tmpName :: "string list \<Rightarrow> repo \<Rightarrow> string" where
  "pull_tmpName args s = ''__remote_'' @ pull_remoteName args s @ ''/'' @ pull_branchName args s"

definition pull_merge_state :: "string list \<Rightarrow> remote_repo \<Rightarrow> repo \<Rightarrow> repo" where
  "pull_merge_state args rr s =
     (let s1 = pull_import rr s;
          theirs = (case map_of (r_branches rr) (pull_branchName args s) of None \<Rightarrow> None | Some h \<Rightarrow> h)
      in s1\<lparr> branches := AList.update (pull_tmpName args s) theirs (branches s1) \<rparr>)"

definition gitPull :: "string list \<Rightarrow> remote_store \<Rightarrow> env \<Rightarrow> repo \<Rightarrow> result \<times> repo" where
  "gitPull args store e s =
     (if \<not> initialized s then (not_a_repository, s)
      else if isDirty (getStatus s)
        then (failure [''error: cannot pull with local changes (simulated).'', ''Hint: commit or stash first.''], s)
      else
        let remoteName = pull_remoteName args s;
            branchName = pull_branchName args s
        in (case map_of (remotes s) remoteName of
              None \<Rightarrow> (failure [''fatal: remote '' @ quoted remoteName @ '' not found''], s)
            | Some u \<Rightarrow>
               (case getRepo store u of
                  None \<Rightarrow> (failure [''fatal: remote URL not found: '' @ u], s)
                | Some rr \<Rightarrow>
                    let remoteHead = (case map_of (r_branches rr) branchName of None \<Rightarrow> None | Some h \<Rightarrow> h)
                    in if \<not> truthy remoteHead
                         then (failure [''fatal: remote branch '' @ quoted branchName @ '' not found''], s)
                       else
                         let s1 = pull_import rr s;
                             ours = head s1;
                             theirs = remoteHead
                         in if \<not> truthy ours \<or> isAncestor s1 ours theirs then
                              (let s2 = set_head theirs s1;
                                   s3 = s2\<lparr> workingFiles := getHeadSnapshot s2,
                                            lastEvent := Some (Git_pull_ff remoteName branchName) \<rparr>
                               in (success [''Fast-forward (simulated).''], s3))
                            else if isAncestor s1 theirs ours then (success [''Already up to date.''], s1)
                            else
                              let label = remoteName @ ''/'' @ branchName;
                                  tmpName = pull_tmpName args s;
                                  s2 = pull_merge_state args rr s;
                                  rc = gitMerge [tmpName] e s2;
                                  r = fst rc;
                                  s3 = snd rc;
                                  s4 = s3\<lparr> branches := AList.delete tmpName (branches s3) \<rparr>;
                                  r1 = (if ok r
                                        then r\<lparr> stdout := (''Merge from '' @ label @ '' (simulated).'') # stdout r \<rparr>
                                        else r\<lparr> stdout := (''Merge from '' @ label
                                                  @ '' requires conflict resolution (simulated).'') # stdout r \<rparr>)
                              in (r1, s4\<lparr> lastEvent := Some (Git_pull_merge remoteName branchName) \<rparr>))))"

definition gitClone :: "string list \<Rightarrow> remote_store \<Rightarrow> repo \<Rightarrow> outcome \<times> repo \<times> remote_store" where
  "gitClone args store s =
     (if \<not> truthy (arg args 0) then (Inr (failure [''usage: git clone <url>'']), s, store)
      else
        let u = the (arg args 0)
        in (case ensureRepo store u of
              Inl err \<Rightarrow> (Inl err, s, store)
            | Inr (store1, rr) \<Rightarrow>
                let s1 = reset\<lparr> initialized := True,
                               remotes := AList.update ''origin'' u (remotes reset),
                               upstreams := AList.update ''main'' \<lparr> u_remote = ''origin'', u_branch = ''main'' \<rparr>
                                              (upstreams reset),
                               commits := r_commits rr,
                               commitOrder := r_commitOrder rr,
                               branches := r_branches rr,
                               currentBranch := ''main'',
                               branchMeta := AList.update ''main'' \<lparr> m_lane = 0, m_color = BRANCH_COLORS ! 0 \<rparr>
                                               (branchMeta reset),
                               nextLane := 1 \<rparr>;
                    s2 = s1\<lparr> workingFiles := getHeadSnapshot s1 \<rparr>;
                    s3 = s2\<lparr> directories := fold (\<lambda>p d. AList.update (dirname p) True d)
                                               (map fst (workingFiles s2)) (directories s2),
                             lastEvent := Some (Git_clone u) \<rparr>
                in (Inr (success [''Cloning into '' @ quoted (basename u) @ ellipsis @ '' (simulated)'', ''done.'']),
                    s3, store1)))"

subsection \<open>Git commands: stash, reset, revert\<close>

definition gitStash :: "string list \<Rightarrow> env \<Rightarrow> repo \<Rightarrow> result \<times> repo" where
  "gitStash args e s =
     (if \<not> initialized s then (not_a_repository, s)
      else if arg args 0 = Some ''pop'' then
        (case stash s of
           [] \<Rightarrow> (failure [''No stash entries found.''], s)
         | entry # rest \<Rightarrow>
             (success [''Applied stash (simulated).''],
              s\<lparr> stash := rest, workingFiles := s_workingFiles entry, stagedFiles := s_stagedFiles entry,
                 mergeState := None, lastEvent := Some Git_stash_pop \<rparr>))
      else if \<not> isDirty (getStatus s) then (failure [''No local changes to save.''], s)
      else
        let msg = ''WIP on '' @ currentBranch s @ '': '' @ shortHash (head s) @ '' (simulated)'';
            entry = \<lparr> s_message = msg, s_workingFiles = workingFiles s, s_stagedFiles = stagedFiles s,
                      s_createdAt = nowMs e \<rparr>
        in (success [''Saved working directory and index state: '' @ msg],
            s\<lparr> stash := entry # stash s, workingFiles := getHeadSnapshot s, stagedFiles := [],
               mergeState := None, lastEvent := Some Git_stash \<rparr>))"

definition toLowerCase :: "string \<Rightarrow> string" where
  "toLowerCase x = map (\<lambda>c. if CHR ''A'' \<le> c \<and> c \<le> CHR ''Z'' then char_of (of_char c + (32::nat)) else c) x"

definition resolveHashPrefix :: "repo \<Rightarrow> string \<Rightarrow> hash option" where
  "resolveHashPrefix s pre =
     (let p = toLowerCase pre
      in if p = [] then None
         else (case filter (\<lambda>h. prefix p (toLowerCase h)) (map fst (commits s)) of
                 [m] \<Rightarrow> Some m
               | _ \<Rightarrow> None))"

text \<open>\<^verbatim>\<open>this.commits[this.head]\<close>: a \<^verbatim>\<open>null\<close> head is the property name \<^verbatim>\<open>"null"\<close>.\<close>

definition property_key :: "string option \<Rightarrow> string" where
  "property_key k = (case k of None \<Rightarrow> ''null'' | Some x \<Rightarrow> x)"

definition gitReset :: "string list \<Rightarrow> repo \<Rightarrow> result \<times> repo" where
  "gitReset args s =
     (if \<not> initialized s then (not_a_repository, s)
      else if arg args 0 \<noteq> Some ''--hard''
        then (failure [''Only '' @ quoted ''--hard'' @ '' is supported in this tutorial.''], s)
      else
        let target = the (or_else (arg args 1) (Some ''HEAD''));
            targetHash =
              (if target = ''HEAD'' then Inr (head s)
               else if target = ''HEAD~1'' then
                 Inr (case map_of (commits s) (property_key (head s)) of
                        None \<Rightarrow> None
                      | Some headCommit \<Rightarrow> first_parent headCommit)
               else (case resolveHashPrefix s target of
                       None \<Rightarrow> Inl (failure [''fatal: ambiguous argument '' @ quoted target])
                     | Some full \<Rightarrow> if full = [] then Inl (failure [''fatal: ambiguous argument '' @ quoted target])
                                    else Inr (Some full)))
        in (case targetHash of
              Inl r \<Rightarrow> (r, s)
            | Inr th \<Rightarrow>
                let s1 = set_head th s;
                    s2 = s1\<lparr> workingFiles := getHeadSnapshot s1, stagedFiles := [], mergeState := None,
                             lastEvent := Some (Git_reset_hard target) \<rparr>
                in (success [''HEAD is now at '' @ shortHash th @ '' (simulated).''], s2)))"

text \<open>The inverse patch of \<^verbatim>\<open>gitRevert\<close> for one path, on \<^verbatim>\<open>headFiles\<close>.\<close>

definition revert_step :: "string obj \<Rightarrow> string obj \<Rightarrow> path \<Rightarrow> string obj \<Rightarrow> string obj" where
  "revert_step parentFiles commitFiles p headFiles =
     (let before0 = map_of parentFiles p; after0 = map_of commitFiles p
      in if before0 = after0 then headFiles
         else if before0 = None \<and> after0 \<noteq> None then AList.delete p headFiles
         else (case before0 of None \<Rightarrow> headFiles | Some x \<Rightarrow> AList.update p x headFiles))"

text \<open>The index that \<^verbatim>\<open>gitRevert\<close> builds before it commits: the inverse patch of the
  commit applied to a copy of the HEAD snapshot, all of it staged, with a deletion for every
  path of HEAD that the result lacks.\<close>

definition revert_index :: "repo \<Rightarrow> commit \<Rightarrow> string option obj" where
  "revert_index s c =
     (let parentFiles = getSnapshot s (first_parent c);
          commitFiles = files c;
          paths = uniq (map fst parentFiles @ map fst commitFiles);
          headFiles = fold (revert_step parentFiles commitFiles) paths (getHeadSnapshot s)
      in stage_deletions (map fst (getHeadSnapshot s)) headFiles (stage_all headFiles []))"

definition gitRevert :: "string list \<Rightarrow> env \<Rightarrow> repo \<Rightarrow> result \<times> repo" where
  "gitRevert args e s =
     (if \<not> initialized s then (not_a_repository, s)
      else if \<not> truthy (arg args 0) then (failure [''usage: git revert <hash>''], s)
      else
        let hashArg = the (arg args 0);
            full = or_else (resolveHashPrefix s hashArg)
                     (if hasOwn (commits s) hashArg then Some hashArg else None)
        in (case (if truthy full then map_of (commits s) (the full) else None) of
              None \<Rightarrow> (failure [''fatal: bad revision '' @ quoted hashArg], s)
            | Some c \<Rightarrow>
                let s1 = s\<lparr> stagedFiles := revert_index s c \<rparr>;
                    msg = ''Revert '' @ [CHR 0x22] @ message c @ [CHR 0x22];
                    rc = gitCommit [''-m'', msg] e s1;
                    r = fst rc;
                    s2 = (snd rc)\<lparr> lastEvent := Some (Git_revert (the full)) \<rparr>
                in if ok r
                     then (r\<lparr> stdout := (''Reverted '' @ shortHash full @ '' (simulated).'') # stdout r \<rparr>, s2)
                   else (r\<lparr> stderr := ''revert failed (simulated)'' # stderr r \<rparr>, s2)))"

subsection \<open>The dispatcher of git commands\<close>

definition lift :: "remote_store \<Rightarrow> result \<times> repo \<Rightarrow> outcome \<times> repo \<times> remote_store" where
  "lift store rs = (Inr (fst rs), snd rs, store)"

definition runGit :: "string \<Rightarrow> remote_store \<Rightarrow> env \<Rightarrow> repo \<Rightarrow> outcome \<times> repo \<times> remote_store" where
  "runGit line store e s =
     (let args = splitArgs line
      in if \<not> truthy (arg args 1)
           then (Inr (failure [''usage: git <command> [<args>]'',
                               ''Try: git init, git status, git add, git commit, git log'']), s, store)
         else
           let sub = the (arg args 1); rest = drop 2 args
           in if sub = ''init'' then lift store (gitInit s)
              else if sub = ''status'' then lift store (gitStatus s)
              else if sub = ''add'' then lift store (gitAdd rest s)
              else if sub = ''commit'' then lift store (gitCommit rest e s)
              else if sub = ''log'' then lift store (gitLog rest e s)
              else if sub = ''branch'' then lift store (gitBranch rest s)
              else if sub = ''checkout'' then lift store (gitCheckout rest s)
              else if sub = ''merge'' then lift store (gitMerge rest e s)
              else if sub = ''remote'' then gitRemote rest store s
              else if sub = ''push'' then gitPush rest store s
              else if sub = ''pull'' then lift store (gitPull rest store e s)
              else if sub = ''clone'' then gitClone rest store s
              else if sub = ''stash'' then lift store (gitStash rest e s)
              else if sub = ''reset'' then lift store (gitReset rest s)
              else if sub = ''revert'' then lift store (gitRevert rest e s)
              else (Inr (failure [''git: '' @ quoted sub @ '' is not implemented in this tutorial.'']), s, store))"

subsection \<open>Shell commands\<close>

definition listDir :: "repo \<Rightarrow> string \<Rightarrow> string list" where
  "listDir s p =
     (let dir = normalizePath p;
          outDirs1 = map (\<lambda>d. basename d @ ''/'')
                       (filter (\<lambda>d. d \<noteq> dir \<and> dirname d = dir) (map fst (directories s)));
          outFiles = map basename (filter (\<lambda>f. dirname f = dir) (map fst (workingFiles s)));
          outDirs2 = concat (map (\<lambda>f.
                       let parent = dirname f
                       in if prefix dir parent \<and> parent \<noteq> dir then
                            (let rel = drop (if dir = ''/'' then 1 else length dir + 1) parent;
                                 top = hd (split_on CHR ''/'' rel)
                             in if top \<noteq> [] then [top @ ''/''] else [])
                          else []) (map fst (workingFiles s)))
      in sort (remdups (outDirs1 @ outDirs2)) @ sort (remdups outFiles))"

definition isDirectory :: "repo \<Rightarrow> string \<Rightarrow> bool" where
  "isDirectory s p =
     (let dir = normalizePath p
      in if map_of (directories s) dir = Some True then True
         else let pre = (if dir = ''/'' then ''/'' else dir @ ''/'')
              in list_ex (\<lambda>f. prefix pre f) (map fst (workingFiles s)))"

definition shell_ok :: "string list \<Rightarrow> result" where
  "shell_ok out = \<lparr> ok = True, exitCode = 0, stdout = out, stderr = [] \<rparr>"

definition runShell :: "string \<Rightarrow> repo \<Rightarrow> result \<times> repo" where
  "runShell line s =
     (case parseEchoRedirection line of
        Some (txt, fileArg) \<Rightarrow>
          let p = joinPath (cwd s) fileArg
          in (shell_ok [],
              s\<lparr> directories := AList.update (dirname p) True (directories s),
                 workingFiles := AList.update p (unescape_nl txt) (workingFiles s),
                 lastEvent := Some (Fs_write p) \<rparr>)
      | None \<Rightarrow>
          let args = splitArgs line
          in if \<not> truthy (arg args 0) then (shell_ok [], s)
             else
               let cmd = the (arg args 0)
               in if cmd = ''pwd'' then (shell_ok [cwd s], s)
                  else if cmd = ''ls'' then
                    (let target = (if truthy (arg args 1) then joinPath (cwd s) (the (arg args 1)) else cwd s)
                     in (shell_ok [join_with ''  '' (listDir s target)], s))
                  else if cmd = ''cd'' then
                    (let nxt = (if truthy (arg args 1) then joinPath (cwd s) (the (arg args 1)) else ''/'')
                     in if \<not> isDirectory s nxt then (failure [''cd: no such directory: '' @ nxt], s)
                        else (shell_ok [], s\<lparr> cwd := nxt \<rparr>))
                  else if cmd = ''mkdir'' then
                    (if \<not> truthy (arg args 1) then (failure [''mkdir: missing operand''], s)
                     else let p = joinPath (cwd s) (the (arg args 1))
                          in (shell_ok [], s\<lparr> directories := AList.update p True (directories s),
                                               lastEvent := Some (Fs_mkdir p) \<rparr>))
                  else if cmd = ''touch'' then
                    (if \<not> truthy (arg args 1) then (failure [''touch: missing file operand''], s)
                     else let p = joinPath (cwd s) (the (arg args 1));
                              s1 = s\<lparr> directories := AList.update (dirname p) True (directories s) \<rparr>;
                              s2 = (if \<not> hasOwn (workingFiles s1) p
                                    then s1\<lparr> workingFiles := AList.update p [] (workingFiles s1) \<rparr> else s1)
                          in (shell_ok [], s2\<lparr> lastEvent := Some (Fs_touch p) \<rparr>))
                  else if cmd = ''rm'' then
                    (if \<not> truthy (arg args 1) then (failure [''rm: missing file operand''], s)
                     else let name = the (arg args 1); p = joinPath (cwd s) name
                          in if \<not> hasOwn (workingFiles s) p
                               then (failure [''rm: cannot remove '' @ quoted name @ '': No such file''], s)
                             else (shell_ok [], s\<lparr> workingFiles := AList.delete p (workingFiles s),
                                                  lastEvent := Some (Fs_rm p) \<rparr>))
                  else if cmd = ''cat'' then
                    (if \<not> truthy (arg args 1) then (failure [''cat: missing file operand''], s)
                     else let name = the (arg args 1); p = joinPath (cwd s) name
                          in (case map_of (workingFiles s) p of
                                None \<Rightarrow> (failure [''cat: '' @ name @ '': No such file''], s)
                              | Some content \<Rightarrow> (shell_ok [content], s)))
                  else (\<lparr> ok = False, exitCode = 127, stdout = [], stderr = [''command not found: '' @ cmd] \<rparr>, s))"

text \<open>\<^verbatim>\<open>App.exec\<close>: a line that starts with \<^verbatim>\<open>git\<close> and a space goes to \<^verbatim>\<open>runGit\<close>, any
  other line to \<^verbatim>\<open>runShell\<close>.\<close>

definition exec :: "string \<Rightarrow> remote_store \<Rightarrow> env \<Rightarrow> repo \<Rightarrow> outcome \<times> repo \<times> remote_store" where
  "exec cmd store e s =
     (if prefix ''git '' cmd then runGit cmd store e s else lift store (runShell cmd s))"

subsection \<open>Persistence\<close>

text \<open>
  \<^verbatim>\<open>deserialize\<close> assigns every field of a new \<^verbatim>\<open>SimulatedRepo\<close> but \<^verbatim>\<open>lastEvent\<close>,
  which keeps the value that \<^verbatim>\<open>reset()\<close> gave it.
\<close>

text \<open>
  The object that \<^verbatim>\<open>serialize\<close> builds and \<^verbatim>\<open>deserialize\<close> reads. A field of the
  object that is missing, or has another type than \<^verbatim>\<open>deserialize\<close> tests for, is \<open>None\<close>
  (for \<^verbatim>\<open>mergeState\<close> that is also \<^verbatim>\<open>null\<close>). \<^verbatim>\<open>lastEvent\<close> is not serialized.
\<close>

record serialized =
  j_initialized :: "bool option"
  j_cwd :: "string option"
  j_directories :: "bool obj option"
  j_workingFiles :: "string obj option"
  j_stagedFiles :: "string option obj option"
  j_commits :: "commit obj option"
  j_commitOrder :: "hash list option"
  j_branches :: "hash option obj option"
  j_currentBranch :: "string option"
  j_branchMeta :: "branch_meta obj option"
  j_nextLane :: "nat option"
  j_mergeState :: "merge_state option"
  j_remotes :: "string obj option"
  j_upstreams :: "upstream obj option"
  j_stash :: "stash_entry list option"

definition serialize :: "repo \<Rightarrow> serialized" where
  "serialize s =
     \<lparr> j_initialized = Some (initialized s), j_cwd = Some (cwd s),
       j_directories = Some (directories s), j_workingFiles = Some (workingFiles s),
       j_stagedFiles = Some (stagedFiles s), j_commits = Some (commits s),
       j_commitOrder = Some (commitOrder s), j_branches = Some (branches s),
       j_currentBranch = Some (currentBranch s), j_branchMeta = Some (branchMeta s),
       j_nextLane = Some (nextLane s), j_mergeState = mergeState s,
       j_remotes = Some (remotes s), j_upstreams = Some (upstreams s), j_stash = Some (stash s) \<rparr>"

definition or_default :: "'a option \<Rightarrow> 'a \<Rightarrow> 'a" where
  "or_default v d = (case v of None \<Rightarrow> d | Some x \<Rightarrow> x)"

definition deserialize :: "serialized \<Rightarrow> repo" where
  "deserialize safe =
     (let r0 = \<lparr>
            initialized = or_default (j_initialized safe) False,
            cwd = or_default (j_cwd safe) ''/'',
            directories = or_default (j_directories safe) [(''/'', True)],
            workingFiles = or_default (j_workingFiles safe) [],
            stagedFiles = or_default (j_stagedFiles safe) [],
            commits = or_default (j_commits safe) [],
            commitOrder = or_default (j_commitOrder safe) [],
            branches = or_default (j_branches safe) [(''main'', None)],
            currentBranch = or_default (j_currentBranch safe) ''main'',
            branchMeta = or_default (j_branchMeta safe) [],
            nextLane = or_default (j_nextLane safe) 1,
            mergeState = j_mergeState safe,
            remotes = or_default (j_remotes safe) [],
            upstreams = or_default (j_upstreams safe) [],
            stash = or_default (j_stash safe) [],
            lastEvent = lastEvent reset \<rparr>;
          r1 = r0\<lparr> branches := ensure_main (branches r0) \<rparr>;
          r2 = (if map_of (branchMeta r1) ''main'' = None
                then r1\<lparr> branchMeta := AList.update ''main'' \<lparr> m_lane = 0, m_color = BRANCH_COLORS ! 0 \<rparr>
                                           (branchMeta r1) \<rparr>
                else r1);
          r3 = (if map_of (directories r2) ''/'' \<noteq> Some True
                then r2\<lparr> directories := AList.update ''/'' True (directories r2) \<rparr>
                else r2)
      in if \<not> truthy (case map_of (branches r3) (currentBranch r3) of None \<Rightarrow> None | Some h \<Rightarrow> h)
           then r3\<lparr> currentBranch := the (or_else (case map fst (branches r3) of [] \<Rightarrow> None | k # _ \<Rightarrow> Some k) (Some ''main'')) \<rparr>
         else r3)"

subsection \<open>Example repositories\<close>

definition env1 :: env where
  "env1 = \<lparr> genHash = ''aaaaaaaaaaa1'', nowMs = 1, toLocaleString = (\<lambda>t. ''1/1/1970'') \<rparr>"

definition env2 :: env where
  "env2 = \<lparr> genHash = ''bbbbbbbbbbb2'', nowMs = 2, toLocaleString = (\<lambda>t. ''1/1/1970'') \<rparr>"

definition commit_a :: commit where
  "commit_a = \<lparr> hash = ''aaaaaaaaaaa1'', message = ''a'', parents = [], timestamp = 1,
                 files = [(''/f'', ''1'')], lane = 0, branch = ''main'' \<rparr>"

text \<open>After \<^verbatim>\<open>git init; echo 1 > f; git add f; git commit -m a\<close>.\<close>

definition one_commit :: repo where
  "one_commit = reset\<lparr> initialized := True, workingFiles := [(''/f'', ''1'')],
     commits := [(''aaaaaaaaaaa1'', commit_a)], commitOrder := [''aaaaaaaaaaa1''],
     branches := [(''main'', Some ''aaaaaaaaaaa1'')],
     lastEvent := Some (Git_commit ''aaaaaaaaaaa1'' ''a'') \<rparr>"

text \<open>Then \<^verbatim>\<open>echo 2 > f; git add f; echo 3 > f\<close>: the path is staged and edited again.\<close>

definition staged_then_edited :: repo where
  "staged_then_edited = one_commit\<lparr> workingFiles := [(''/f'', ''3'')],
     stagedFiles := [(''/f'', Some ''2'')], lastEvent := Some (Fs_write ''/f'') \<rparr>"

text \<open>After \<^verbatim>\<open>git init; echo 1 > g\<close>: one file that Git does not know.\<close>

definition one_untracked :: repo where
  "one_untracked = reset\<lparr> initialized := True, workingFiles := [(''/g'', ''1'')],
     lastEvent := Some (Fs_write ''/g'') \<rparr>"

text \<open>After \<^verbatim>\<open>echo x > n; git stash\<close> on the repository with one commit.\<close>

definition stashed :: repo where
  "stashed = one_commit\<lparr> stash := [\<lparr> s_message = ''WIP on main: aaaaaaa (simulated)'',
       s_workingFiles = [(''/f'', ''1''), (''/n'', ''x'')], s_stagedFiles = [], s_createdAt = 2 \<rparr>],
     lastEvent := Some Git_stash \<rparr>"

text \<open>What a caller sees of an outcome: whether the command returned a result that is ok, and
  its exit code.\<close>

definition outcome_ok :: "outcome \<Rightarrow> bool" where
  "outcome_ok out = (case out of Inl err \<Rightarrow> False | Inr r \<Rightarrow> ok r)"

definition outcome_exitCode :: "outcome \<Rightarrow> nat option" where
  "outcome_exitCode out = (case out of Inl err \<Rightarrow> None | Inr r \<Rightarrow> Some (exitCode r))"

text \<open>
  In the words of the specification: the HEAD snapshot overlaid with the additions and the
  deletions of the index, a \<^verbatim>\<open>null\<close> entry of the index deleting the path. Snapshot and
  index are read as maps here.
\<close>

definition spec_overlay :: "(path \<rightharpoonup> string) \<Rightarrow> (path \<rightharpoonup> string option) \<Rightarrow> (path \<rightharpoonup> string)" where
  "spec_overlay snapshot index =
     (\<lambda>p. case index p of None \<Rightarrow> snapshot p | Some None \<Rightarrow> None | Some (Some content) \<Rightarrow> Some content)"

text \<open>After \<^verbatim>\<open>git branch feat\<close> on the repository with one commit: both branches point to
  that commit.\<close>

definition two_branches :: repo where
  "two_branches = one_commit\<lparr>
     branches := [(''main'', Some ''aaaaaaaaaaa1''), (''feat'', Some ''aaaaaaaaaaa1'')],
     branchMeta := [(''main'', \<lparr> m_lane = 0, m_color = ''#4cc9f0'' \<rparr>),
                    (''feat'', \<lparr> m_lane = 1, m_color = ''#b392f0'' \<rparr>)],
     nextLane := 2, lastEvent := Some (Git_branch_create ''feat'') \<rparr>"

definition commit_b :: commit where
  "commit_b = \<lparr> hash = ''bbbbbbbbbbb2'', message = ''b'', parents = [''aaaaaaaaaaa1''], timestamp = 2,
                 files = [(''/f'', ''2'')], lane = 1, branch = ''feat'' \<rparr>"

text \<open>Then \<^verbatim>\<open>git checkout feat; echo 2 > f; git add f; git commit -m b\<close>: the branch
  \<^verbatim>\<open>feat\<close> is one commit ahead of \<^verbatim>\<open>main\<close>, and checked out.\<close>

definition feat_ahead :: repo where
  "feat_ahead = two_branches\<lparr>
     commits := [(''aaaaaaaaaaa1'', commit_a), (''bbbbbbbbbbb2'', commit_b)],
     commitOrder := [''aaaaaaaaaaa1'', ''bbbbbbbbbbb2''],
     branches := [(''main'', Some ''aaaaaaaaaaa1''), (''feat'', Some ''bbbbbbbbbbb2'')],
     currentBranch := ''feat'', workingFiles := [(''/f'', ''2'')],
     lastEvent := Some (Git_commit ''bbbbbbbbbbb2'' ''b'') \<rparr>"

text \<open>Then \<^verbatim>\<open>git checkout main\<close>: the current branch is one commit behind \<^verbatim>\<open>feat\<close>.\<close>

definition main_behind :: repo where
  "main_behind = feat_ahead\<lparr> currentBranch := ''main'', workingFiles := [(''/f'', ''1'')],
     lastEvent := Some (Git_checkout ''main'') \<rparr>"

definition commit_blue :: commit where
  "commit_blue = \<lparr> hash = ''aaaaaaaaaaa1'', message = ''base'', parents = [], timestamp = 1,
                    files = [(''/config'', ''blue'')], lane = 0, branch = ''main'' \<rparr>"

definition commit_green :: commit where
  "commit_green = \<lparr> hash = ''bbbbbbbbbbb2'', message = ''g'', parents = [''aaaaaaaaaaa1''], timestamp = 2,
                     files = [(''/config'', ''green'')], lane = 1, branch = ''feat'' \<rparr>"

definition commit_red :: commit where
  "commit_red = \<lparr> hash = ''ccccccccccc3'', message = ''r'', parents = [''aaaaaaaaaaa1''], timestamp = 3,
                   files = [(''/config'', ''red'')], lane = 0, branch = ''main'' \<rparr>"

text \<open>
  The third scenario of the specification before its merge: \<^verbatim>\<open>config\<close> is \<^verbatim>\<open>blue\<close> in the
  base commit, \<^verbatim>\<open>green\<close> at the head of \<^verbatim>\<open>feat\<close> and \<^verbatim>\<open>red\<close> at the head of \<^verbatim>\<open>main\<close>,
  which is checked out.
\<close>

definition diverged :: repo where
  "diverged = reset\<lparr> initialized := True, workingFiles := [(''/config'', ''red'')],
     commits := [(''aaaaaaaaaaa1'', commit_blue), (''bbbbbbbbbbb2'', commit_green),
                 (''ccccccccccc3'', commit_red)],
     commitOrder := [''aaaaaaaaaaa1'', ''bbbbbbbbbbb2'', ''ccccccccccc3''],
     branches := [(''main'', Some ''ccccccccccc3''), (''feat'', Some ''bbbbbbbbbbb2'')],
     branchMeta := [(''main'', \<lparr> m_lane = 0, m_color = ''#4cc9f0'' \<rparr>),
                    (''feat'', \<lparr> m_lane = 1, m_color = ''#b392f0'' \<rparr>)],
     nextLane := 2, lastEvent := Some (Git_commit ''ccccccccccc3'' ''r'') \<rparr>"

text \<open>After \<^verbatim>\<open>git init; git checkout -b feat\<close> on the new repository: the current branch
  \<^verbatim>\<open>feat\<close> is unborn, and it is not the first branch.\<close>

definition unborn_feat :: repo where
  "unborn_feat = reset\<lparr> initialized := True,
     branches := [(''main'', None), (''feat'', None)], currentBranch := ''feat'',
     branchMeta := [(''main'', \<lparr> m_lane = 0, m_color = ''#4cc9f0'' \<rparr>),
                    (''feat'', \<lparr> m_lane = 1, m_color = ''#b392f0'' \<rparr>)],
     nextLane := 2, lastEvent := Some (Git_checkout_new ''feat'') \<rparr>"

text \<open>
  In the words of the specification: the commits reachable from a head, through the parents
  of the commits that the repository holds.
\<close>

inductive reachable :: "commit obj \<Rightarrow> hash \<Rightarrow> hash \<Rightarrow> bool" for cs :: "commit obj" where
  reachable_head: "reachable cs h h"
| reachable_parent: "reachable cs h k \<Longrightarrow> map_of cs k = Some c \<Longrightarrow> p \<in> set (parents c) \<Longrightarrow> reachable cs h p"

text \<open>After \<^verbatim>\<open>git remote add origin https://x.io/r.git\<close> on the repository with one commit,
  and the remote store that this command leaves.\<close>

definition with_remote :: repo where
  "with_remote = one_commit\<lparr> remotes := [(''origin'', ''https://x.io/r.git'')],
     lastEvent := Some (Git_remote_add ''origin'' ''https://x.io/r.git'') \<rparr>"

definition empty_store :: remote_store where
  "empty_store = [(''https://x.io/r.git'', createEmptyRemote ''https://x.io/r.git'')]"

text \<open>The subcommand of a line that \<^verbatim>\<open>App.exec\<close> hands to \<^verbatim>\<open>runGit\<close>; \<open>None\<close> for a line
  of the shell and for \<^verbatim>\<open>git\<close> alone.\<close>

definition git_sub :: "string \<Rightarrow> string option" where
  "git_sub line = (if prefix ''git '' line then arg (splitArgs line) 1 else None)"

text \<open>After \<^verbatim>\<open>git init; echo 1 > f\<close>.\<close>

definition one_file :: repo where
  "one_file = reset\<lparr> initialized := True, workingFiles := [(''/f'', ''1'')],
     lastEvent := Some (Fs_write ''/f'') \<rparr>"

text \<open>
  The branch head that \<^verbatim>\<open>gitMerge\<close> merges, and the condition under which it reaches its
  three-way loop: every check passed, both heads are commits, and neither is an ancestor of
  the other.
\<close>

definition merge_theirs :: "string list \<Rightarrow> repo \<Rightarrow> hash option" where
  "merge_theirs args s = (case map_of (branches s) (the (arg args 0)) of None \<Rightarrow> None | Some h \<Rightarrow> h)"

definition diverged_merge :: "string list \<Rightarrow> repo \<Rightarrow> bool" where
  "diverged_merge args s =
     (initialized s \<and> \<not> isDirty (getStatus s) \<and> truthy (arg args 0)
      \<and> hasOwn (branches s) (the (arg args 0))
      \<and> truthy (merge_theirs args s) \<and> truthy (head s)
      \<and> \<not> isAncestor s (head s) (merge_theirs args s)
      \<and> \<not> isAncestor s (merge_theirs args s) (head s))"

text \<open>
  Every commit is listed in \<^verbatim>\<open>commitOrder\<close>, and every entry of \<^verbatim>\<open>commitOrder\<close> is a commit:
  in a repository, and in every remote of a store.
\<close>

definition order_complete :: "repo \<Rightarrow> bool" where
  "order_complete s = (set (map fst (commits s)) = set (commitOrder s))"

definition store_complete :: "remote_store \<Rightarrow> bool" where
  "store_complete store =
     list_all (\<lambda>ur. set (map fst (r_commits (snd ur))) = set (r_commitOrder (snd ur))) store"

text \<open>
  The repository with one commit and a remote, as \<^verbatim>\<open>deserialize\<close> loads it from a stored
  object whose \<^verbatim>\<open>commitOrder\<close> is not an array: the commit is missing from \<^verbatim>\<open>commitOrder\<close>.
  And the same repository loaded from an object whose \<^verbatim>\<open>commitOrder\<close> lists a hash that is
  no commit.
\<close>

definition unlisted_commit :: repo where
  "unlisted_commit = deserialize ((serialize with_remote)\<lparr> j_commitOrder := None \<rparr>)"

definition dangling_order :: repo where
  "dangling_order =
     deserialize ((serialize with_remote)\<lparr> j_commitOrder := Some [''aaaaaaaaaaa1'', ''dddddddddddd''] \<rparr>)"

text \<open>
  The repository that the three-way loop of \<^verbatim>\<open>gitMerge\<close> leaves when the merge goes no
  further: the merged working tree, an empty index and the merge state with the conflicts;
  the event is that of the conflict, or, without a conflict, that of the merge.
\<close>

definition merge_stopped :: "string list \<Rightarrow> repo \<Rightarrow> repo" where
  "merge_stopped args s =
     (let tbranch = the (arg args 0);
          theirs = merge_theirs args s;
          res = three_way s (head s) theirs tbranch
      in s\<lparr> workingFiles := fst res, stagedFiles := [],
            mergeState := Some \<lparr> theirBranch = tbranch, theirHash = theirs, conflicts = snd res \<rparr>,
            lastEvent := Some (if snd res \<noteq> [] then Git_merge_conflict tbranch (map relPath (snd res))
                               else Git_merge tbranch) \<rparr>)"

text \<open>Two branches that both deleted the only file of their common base; \<^verbatim>\<open>main\<close> is
  checked out.\<close>

definition both_deleted :: repo where
  "both_deleted = reset\<lparr> initialized := True,
     commits := [(''aaaaaaaaaaa1'', commit_a),
                 (''bbbbbbbbbbb2'', \<lparr> hash = ''bbbbbbbbbbb2'', message = ''d'', parents = [''aaaaaaaaaaa1''],
                                     timestamp = 2, files = [], lane = 1, branch = ''feat'' \<rparr>),
                 (''ccccccccccc3'', \<lparr> hash = ''ccccccccccc3'', message = ''d'', parents = [''aaaaaaaaaaa1''],
                                     timestamp = 3, files = [], lane = 0, branch = ''main'' \<rparr>)],
     commitOrder := [''aaaaaaaaaaa1'', ''bbbbbbbbbbb2'', ''ccccccccccc3''],
     branches := [(''main'', Some ''ccccccccccc3''), (''feat'', Some ''bbbbbbbbbbb2'')],
     branchMeta := [(''main'', \<lparr> m_lane = 0, m_color = ''#4cc9f0'' \<rparr>),
                    (''feat'', \<lparr> m_lane = 1, m_color = ''#b392f0'' \<rparr>)],
     nextLane := 2, lastEvent := Some (Git_commit ''ccccccccccc3'' ''d'') \<rparr>"

text \<open>The third scenario after its \<^verbatim>\<open>git merge feat\<close>: the merge is pending, with a conflict
  in \<^verbatim>\<open>config\<close>.\<close>

definition conflicted :: repo where
  "conflicted = snd (gitMerge [''feat''] env1 diverged)"

text \<open>
  A repository whose \<^verbatim>\<open>main\<close> has the base commit and the \<^verbatim>\<open>red\<close> one, with a remote
  \<^verbatim>\<open>origin\<close> whose \<^verbatim>\<open>main\<close> has the base commit and the \<^verbatim>\<open>green\<close> one.
\<close>

definition local_red :: repo where
  "local_red = reset\<lparr> initialized := True, workingFiles := [(''/config'', ''red'')],
     commits := [(''aaaaaaaaaaa1'', commit_blue), (''ccccccccccc3'', commit_red)],
     commitOrder := [''aaaaaaaaaaa1'', ''ccccccccccc3''],
     branches := [(''main'', Some ''ccccccccccc3'')],
     branchMeta := [(''main'', \<lparr> m_lane = 0, m_color = ''#4cc9f0'' \<rparr>)],
     remotes := [(''origin'', ''https://x.io/r.git'')],
     lastEvent := Some (Git_commit ''ccccccccccc3'' ''r'') \<rparr>"

definition green_store :: remote_store where
  "green_store = [(''https://x.io/r.git'',
     \<lparr> r_url = ''https://x.io/r.git'',
       r_commits = [(''aaaaaaaaaaa1'', commit_blue),
                    (''bbbbbbbbbbb2'', commit_green\<lparr> lane := 0, branch := ''main'' \<rparr>)],
       r_commitOrder = [''aaaaaaaaaaa1'', ''bbbbbbbbbbb2''],
       r_branches = [(''main'', Some ''bbbbbbbbbbb2'')] \<rparr>)]"

section \<open>Properties\<close>

subsection \<open>Objects and sets\<close>

lemma set_uniq: "set (uniq xs) = set xs"
  by (simp add: uniq_def)

lemma distinct_uniq: "distinct (uniq xs)"
  by (simp add: uniq_def)

lemma hasOwn_iff: "hasOwn m k \<longleftrightarrow> k \<in> fst ` set m"
  by (simp add: hasOwn_def map_of_eq_None_iff)

lemma set_listAllPaths:
  "set (listAllPaths s) =
     {p. hasOwn (workingFiles s) p \<or> hasOwn (getHeadSnapshot s) p \<or> hasOwn (stagedFiles s) p}"
  by (auto simp: listAllPaths_def set_uniq hasOwn_iff)

subsection \<open>Status\<close>

text \<open>What one step of the loop of \<^verbatim>\<open>getStatus\<close> appends to each of the three arrays.\<close>

lemma status_step_append:
  "status_step s p (sg, us, ut) =
     (sg @ fst (status_step s p ([], [], [])),
      us @ fst (snd (status_step s p ([], [], []))),
      ut @ snd (snd (status_step s p ([], [], []))))"
  by (simp add: status_step_def Let_def)

lemma fold_status_step:
  "fold (status_step s) ps (sg, us, ut) =
     (sg @ concat (map (\<lambda>p. fst (status_step s p ([], [], []))) ps),
      us @ concat (map (\<lambda>p. fst (snd (status_step s p ([], [], [])))) ps),
      ut @ concat (map (\<lambda>p. snd (snd (status_step s p ([], [], [])))) ps))"
proof (induction ps arbitrary: sg us ut)
  case Nil
  show ?case by simp
next
  case (Cons p ps)
  show ?case
    by (subst fold_simps, subst status_step_append, subst Cons.IH) simp
qed

lemma step_untracked:
  "snd (snd (status_step s p ([], [], []))) =
     (if p \<notin> set (conflicts_of s) \<and> \<not> hasOwn (getHeadSnapshot s) p \<and> hasOwn (workingFiles s) p
      then [(p, ''A'')] else [])"
  by (simp add: status_step_def Let_def)

lemma step_unstaged:
  "fst (snd (status_step s p ([], [], []))) =
     (if p \<notin> set (conflicts_of s) \<and> hasOwn (getHeadSnapshot s) p then
        (if \<not> hasOwn (workingFiles s) p then (if \<not> hasOwn (stagedFiles s) p then [(p, ''D'')] else [])
         else if map_of (workingFiles s) p \<noteq> map_of (getHeadSnapshot s) p
                \<and> map_of (workingFiles s) p \<noteq>
                     (if hasOwn (stagedFiles s) p then the (map_of (stagedFiles s) p)
                      else map_of (getHeadSnapshot s) p)
           then [(p, ''M'')] else [])
      else [])"
  by (simp add: status_step_def Let_def hasOwn_def split: option.splits)

lemma step_staged:
  "fst (status_step s p ([], [], [])) =
     (if p \<notin> set (conflicts_of s) \<and> hasOwn (stagedFiles s) p then
        (if \<not> hasOwn (getHeadSnapshot s) p
           then (if the (map_of (stagedFiles s) p) \<noteq> None then [(p, ''A'')] else [])
         else if the (map_of (stagedFiles s) p) = None then [(p, ''D'')]
         else if the (map_of (stagedFiles s) p) \<noteq> map_of (getHeadSnapshot s) p then [(p, ''M'')]
         else [])
      else [])"
  by (auto simp: status_step_def Let_def hasOwn_def split: option.splits)

lemma untracked_getStatus:
  "untracked (getStatus s) = concat (map (\<lambda>p. snd (snd (status_step s p ([], [], [])))) (listAllPaths s))"
  by (simp add: getStatus_def fold_status_step)

lemma unstaged_getStatus:
  "unstaged (getStatus s) = concat (map (\<lambda>p. fst (snd (status_step s p ([], [], [])))) (listAllPaths s))"
  by (simp add: getStatus_def fold_status_step)

lemma staged_getStatus:
  "staged (getStatus s) = concat (map (\<lambda>p. fst (status_step s p ([], [], []))) (listAllPaths s))"
  by (simp add: getStatus_def fold_status_step)

lemma untracked_iff:
  "x \<in> set (untracked (getStatus s)) \<longleftrightarrow>
     snd x = ''A'' \<and> fst x \<notin> set (conflicts_of s)
     \<and> \<not> hasOwn (getHeadSnapshot s) (fst x) \<and> hasOwn (workingFiles s) (fst x)"
  unfolding untracked_getStatus step_untracked set_concat set_map set_listAllPaths
  by (cases x) (auto split: if_splits)

lemma unstaged_path:
  assumes "x \<in> set (unstaged (getStatus s))"
  shows "fst x \<notin> set (conflicts_of s) \<and> hasOwn (getHeadSnapshot s) (fst x)"
  using assms unfolding unstaged_getStatus step_unstaged set_concat set_map set_listAllPaths
  by (cases x) (auto split: if_splits)

lemma staged_path:
  assumes "x \<in> set (staged (getStatus s))"
  shows "fst x \<notin> set (conflicts_of s) \<and> hasOwn (stagedFiles s) (fst x)"
  using assms unfolding staged_getStatus step_staged set_concat set_map set_listAllPaths
  by (cases x) (auto split: if_splits)

lemma isDirty_iff:
  "isDirty (getStatus s) \<longleftrightarrow>
     stagedFiles s \<noteq> [] \<or> staged (getStatus s) \<noteq> [] \<or> unstaged (getStatus s) \<noteq> []
     \<or> untracked (getStatus s) \<noteq> [] \<or> conflicts_of s \<noteq> []"
  by (simp add: getStatus_def split: prod.splits)

text \<open>
  Claim C1, as the code has it. \<^verbatim>\<open>getStatus\<close> derives three lists of paths. No path is both
  untracked and unstaged, and no path of the conflict list of the merge is in any of the
  three. Every untracked path is present in the working tree and absent from the HEAD
  snapshot; every path that is present in the working tree, absent from the HEAD snapshot,
  absent from the index and not in conflict is untracked.
\<close>

theorem getStatus_sets:
  "set (map fst (untracked (getStatus s))) \<inter> set (map fst (unstaged (getStatus s))) = {}
   \<and> (set (map fst (staged (getStatus s))) \<union> set (map fst (unstaged (getStatus s)))
        \<union> set (map fst (untracked (getStatus s)))) \<inter> set (conflicts_of s) = {}
   \<and> set (map fst (untracked (getStatus s)))
        \<subseteq> {p. hasOwn (workingFiles s) p \<and> \<not> hasOwn (getHeadSnapshot s) p}
   \<and> {p. hasOwn (workingFiles s) p \<and> \<not> hasOwn (getHeadSnapshot s) p
           \<and> \<not> hasOwn (stagedFiles s) p \<and> p \<notin> set (conflicts_of s)}
        \<subseteq> set (map fst (untracked (getStatus s)))"
proof (intro conjI)
  show "set (map fst (untracked (getStatus s))) \<inter> set (map fst (unstaged (getStatus s))) = {}"
  proof (rule ccontr)
    assume "set (map fst (untracked (getStatus s))) \<inter> set (map fst (unstaged (getStatus s))) \<noteq> {}"
    then obtain x y where x: "x \<in> set (untracked (getStatus s))"
      and y: "y \<in> set (unstaged (getStatus s))" and xy: "fst x = fst y"
      by auto
    from x have "\<not> hasOwn (getHeadSnapshot s) (fst x)" by (simp add: untracked_iff)
    moreover from y have "hasOwn (getHeadSnapshot s) (fst y)" by (simp add: unstaged_path)
    ultimately show False using xy by simp
  qed
  show "(set (map fst (staged (getStatus s))) \<union> set (map fst (unstaged (getStatus s)))
        \<union> set (map fst (untracked (getStatus s)))) \<inter> set (conflicts_of s) = {}"
  proof (rule ccontr)
    assume "(set (map fst (staged (getStatus s))) \<union> set (map fst (unstaged (getStatus s)))
        \<union> set (map fst (untracked (getStatus s)))) \<inter> set (conflicts_of s) \<noteq> {}"
    then obtain x where c: "fst x \<in> set (conflicts_of s)"
      and x: "x \<in> set (staged (getStatus s)) \<or> x \<in> set (unstaged (getStatus s))
               \<or> x \<in> set (untracked (getStatus s))"
      by auto
    from x have "fst x \<notin> set (conflicts_of s)"
      using staged_path [of x s] unstaged_path [of x s] untracked_iff [of x s] by blast
    with c show False by simp
  qed
  show "set (map fst (untracked (getStatus s)))
        \<subseteq> {p. hasOwn (workingFiles s) p \<and> \<not> hasOwn (getHeadSnapshot s) p}"
  proof
    fix p
    assume "p \<in> set (map fst (untracked (getStatus s)))"
    then obtain x where "x \<in> set (untracked (getStatus s))" and "p = fst x"
      by auto
    then show "p \<in> {p. hasOwn (workingFiles s) p \<and> \<not> hasOwn (getHeadSnapshot s) p}"
      by (simp add: untracked_iff)
  qed
  show "{p. hasOwn (workingFiles s) p \<and> \<not> hasOwn (getHeadSnapshot s) p
           \<and> \<not> hasOwn (stagedFiles s) p \<and> p \<notin> set (conflicts_of s)}
        \<subseteq> set (map fst (untracked (getStatus s)))"
  proof
    fix p
    assume "p \<in> {p. hasOwn (workingFiles s) p \<and> \<not> hasOwn (getHeadSnapshot s) p
           \<and> \<not> hasOwn (stagedFiles s) p \<and> p \<notin> set (conflicts_of s)}"
    then have "(p, ''A'') \<in> set (untracked (getStatus s))"
      by (simp add: untracked_iff)
    then have "fst (p, ''A'') \<in> fst ` set (untracked (getStatus s))"
      by (rule imageI)
    then show "p \<in> set (map fst (untracked (getStatus s)))"
      by simp
  qed
qed

lemma head_one_commit: "getHeadSnapshot one_commit = [(''/f'', ''1'')]"
  by (simp add: one_commit_def commit_a_def reset_def getHeadSnapshot_def getSnapshot_def head_def truthy_def)

lemma head_staged_then_edited: "getHeadSnapshot staged_then_edited = [(''/f'', ''1'')]"
  by (simp add: staged_then_edited_def one_commit_def commit_a_def reset_def getHeadSnapshot_def getSnapshot_def
      head_def truthy_def)

lemma paths_staged_then_edited: "listAllPaths staged_then_edited = [''/f'']"
  by (simp add: listAllPaths_def head_staged_then_edited uniq_def)
     (simp add: staged_then_edited_def one_commit_def reset_def)

text \<open>
  The three lists are not pairwise disjoint: a path that was staged and then edited again is
  reported both as staged and as unstaged, as Git reports it.
\<close>

theorem getStatus_staged_and_unstaged:
  "(''/f'', ''M'') \<in> set (staged (getStatus staged_then_edited))
   \<and> (''/f'', ''M'') \<in> set (unstaged (getStatus staged_then_edited))"
  by (simp add: staged_getStatus unstaged_getStatus paths_staged_then_edited step_staged step_unstaged
        head_staged_then_edited conflicts_of_def hasOwn_def)
     (simp add: staged_then_edited_def one_commit_def reset_def)

text \<open>The file that Git does not know is untracked, and not unstaged.\<close>

theorem getStatus_sets_witness:
  "''/g'' \<in> set (map fst (untracked (getStatus one_untracked)))
   \<and> set (map fst (untracked (getStatus one_untracked))) \<inter> set (map fst (unstaged (getStatus one_untracked))) = {}"
proof -
  have "hasOwn (workingFiles one_untracked) ''/g'' \<and> \<not> hasOwn (getHeadSnapshot one_untracked) ''/g''
        \<and> \<not> hasOwn (stagedFiles one_untracked) ''/g'' \<and> ''/g'' \<notin> set (conflicts_of one_untracked)"
    by (simp add: one_untracked_def reset_def hasOwn_def getHeadSnapshot_def getSnapshot_def head_def
        truthy_def conflicts_of_def)
  then show ?thesis
    using getStatus_sets [of one_untracked] by blast
qed

subsection \<open>Stash\<close>

text \<open>
  Claim C9. On an initialized repository \<^verbatim>\<open>git stash pop\<close> fails with exit code 1 and leaves
  the state as it was exactly when the stash is empty. Otherwise it succeeds whatever the
  working tree and the index hold: both are replaced by those of the newest entry, the entry
  leaves the stash, and the merge state is cleared.
\<close>

theorem gitStash_pop:
  assumes "initialized s" and "arg args 0 = Some ''pop''"
  shows "((\<not> ok (fst (gitStash args e s)) \<and> exitCode (fst (gitStash args e s)) = 1
            \<and> snd (gitStash args e s) = s) \<longleftrightarrow> stash s = [])
         \<and> (\<forall>entry rest. stash s = entry # rest \<longrightarrow>
               ok (fst (gitStash args e s)) \<and> exitCode (fst (gitStash args e s)) = 0
               \<and> snd (gitStash args e s) =
                   s\<lparr> stash := rest, workingFiles := s_workingFiles entry,
                      stagedFiles := s_stagedFiles entry, mergeState := None,
                      lastEvent := Some Git_stash_pop \<rparr>)"
proof (cases "stash s")
  case Nil
  with assms show ?thesis
    by (simp add: gitStash_def failure_def)
next
  case (Cons entry rest)
  with assms show ?thesis
    by (simp add: gitStash_def success_def)
qed

theorem gitStash_pop_witness:
  "initialized stashed \<and> arg [''pop''] 0 = Some ''pop''
   \<and> snd (gitStash [''pop''] env1 one_commit) = one_commit
   \<and> workingFiles (snd (gitStash [''pop''] env1 stashed)) = [(''/f'', ''1''), (''/n'', ''x'')]
   \<and> stash (snd (gitStash [''pop''] env1 stashed)) = []"
proof -
  have i: "initialized stashed" "initialized one_commit"
    by (simp_all add: stashed_def one_commit_def reset_def)
  have a: "arg [''pop''] 0 = Some ''pop''"
    by (simp add: arg_def)
  have s1: "stash one_commit = []"
    by (simp add: one_commit_def reset_def)
  have s2: "stash stashed = \<lparr> s_message = ''WIP on main: aaaaaaa (simulated)'',
       s_workingFiles = [(''/f'', ''1''), (''/n'', ''x'')], s_stagedFiles = [], s_createdAt = 2 \<rparr> # []"
    by (simp add: stashed_def)
  show ?thesis
    using gitStash_pop [OF i(1) a, of env1] gitStash_pop [OF i(2) a, of env1] i a s1 s2
    by simp
qed

subsection \<open>Reset\<close>

lemma head_set_head: "head (set_head h s) = h"
  by (simp add: head_def set_head_def update_conv')

lemma getHeadSnapshot_None: "head s = None \<Longrightarrow> getHeadSnapshot s = []"
  by (simp add: getHeadSnapshot_def getSnapshot_def truthy_def)

text \<open>
  Claim C10. When the commit at HEAD has no parents, \<^verbatim>\<open>git reset --hard HEAD~1\<close> succeeds
  with exit code 0: the head of the current branch becomes \<^verbatim>\<open>null\<close>, the working tree is
  the empty snapshot, the index and the merge state are cleared, and the commit stays in
  \<^verbatim>\<open>commits\<close> and \<^verbatim>\<open>commitOrder\<close>.
\<close>

theorem gitReset_root_commit:
  assumes "initialized s" and "head s = Some h" and "map_of (commits s) h = Some c"
    and "parents c = []"
  shows "ok (fst (gitReset [''--hard'', ''HEAD~1''] s))
         \<and> exitCode (fst (gitReset [''--hard'', ''HEAD~1''] s)) = 0
         \<and> map_of (branches (snd (gitReset [''--hard'', ''HEAD~1''] s))) (currentBranch s) = Some None
         \<and> currentBranch (snd (gitReset [''--hard'', ''HEAD~1''] s)) = currentBranch s
         \<and> head (snd (gitReset [''--hard'', ''HEAD~1''] s)) = None
         \<and> workingFiles (snd (gitReset [''--hard'', ''HEAD~1''] s)) = []
         \<and> stagedFiles (snd (gitReset [''--hard'', ''HEAD~1''] s)) = []
         \<and> mergeState (snd (gitReset [''--hard'', ''HEAD~1''] s)) = None
         \<and> commits (snd (gitReset [''--hard'', ''HEAD~1''] s)) = commits s
         \<and> commitOrder (snd (gitReset [''--hard'', ''HEAD~1''] s)) = commitOrder s"
proof -
  have fp: "first_parent c = None"
    using assms(4) by (simp add: first_parent_def or_else_def truthy_def)
  have r: "gitReset [''--hard'', ''HEAD~1''] s =
      (success [''HEAD is now at '' @ shortHash None @ '' (simulated).''],
       (set_head None s)\<lparr> workingFiles := getHeadSnapshot (set_head None s), stagedFiles := [],
          mergeState := None, lastEvent := Some (Git_reset_hard ''HEAD~1'') \<rparr>)"
    using assms(1-3) fp
    by (simp add: gitReset_def arg_def or_else_def truthy_def property_key_def Let_def)
  have w: "getHeadSnapshot (set_head None s) = []"
    by (rule getHeadSnapshot_None) (rule head_set_head)
  have h': "head ((set_head None s)\<lparr> workingFiles := [], stagedFiles := [],
          mergeState := None, lastEvent := Some (Git_reset_hard ''HEAD~1'') \<rparr>) = None"
    using head_set_head [of None s] by (simp add: head_def)
  show ?thesis
    unfolding r w using h' by (simp add: success_def set_head_def update_conv')
qed

theorem gitReset_root_commit_witness:
  "initialized one_commit \<and> head one_commit = Some ''aaaaaaaaaaa1''
   \<and> map_of (commits one_commit) ''aaaaaaaaaaa1'' = Some commit_a \<and> parents commit_a = []
   \<and> ok (fst (gitReset [''--hard'', ''HEAD~1''] one_commit))
   \<and> map_of (branches (snd (gitReset [''--hard'', ''HEAD~1''] one_commit))) ''main'' = Some None
   \<and> workingFiles (snd (gitReset [''--hard'', ''HEAD~1''] one_commit)) = []
   \<and> commitOrder (snd (gitReset [''--hard'', ''HEAD~1''] one_commit)) = [''aaaaaaaaaaa1'']"
proof -
  have i: "initialized one_commit" by (simp add: one_commit_def reset_def)
  have h: "head one_commit = Some ''aaaaaaaaaaa1''" by (simp add: one_commit_def reset_def head_def)
  have c: "map_of (commits one_commit) ''aaaaaaaaaaa1'' = Some commit_a" by (simp add: one_commit_def)
  have p: "parents commit_a = []" by (simp add: commit_a_def)
  have b: "currentBranch one_commit = ''main''" "commitOrder one_commit = [''aaaaaaaaaaa1'']"
    by (simp_all add: one_commit_def reset_def)
  show ?thesis
    using gitReset_root_commit [OF i h c p] i h c p b by simp
qed

subsection \<open>Commands on a repository that is not initialized\<close>

text \<open>
  Claim C2, as the code has it. Every git command that works on an existing repository
  (all but \<^verbatim>\<open>init\<close> and \<^verbatim>\<open>clone\<close>) fails on a repository that is not initialized, with exit
  code 1 and the message \<^verbatim>\<open>fatal: not a git repository (simulated)\<close>, and leaves the
  repository and the remote store as they were.
\<close>

theorem runGit_not_initialized:
  assumes "\<not> initialized s" and "arg (splitArgs line) 1 = Some sub"
    and "sub \<in> set [''status'', ''add'', ''commit'', ''log'', ''branch'', ''checkout'', ''merge'',
                     ''remote'', ''push'', ''pull'', ''stash'', ''reset'', ''revert'']"
  shows "runGit line store e s = (Inr not_a_repository, s, store)
         \<and> \<not> ok not_a_repository \<and> exitCode not_a_repository = 1
         \<and> stderr not_a_repository = [''fatal: not a git repository (simulated)'']"
proof -
  have ne: "sub \<noteq> []" using assms(3) by auto
  have "runGit line store e s = (Inr not_a_repository, s, store)"
    using assms ne
    by (auto simp: runGit_def truthy_def lift_def gitStatus_def gitAdd_def gitCommit_def gitLog_def
        gitBranch_def gitCheckout_def gitMerge_def gitRemote_def gitPush_def gitPull_def gitStash_def
        gitReset_def gitRevert_def)
  then show ?thesis
    by (simp add: not_a_repository_def failure_def)
qed

theorem runGit_not_initialized_witness:
  "\<not> initialized reset \<and> arg (splitArgs ''git status'') 1 = Some ''status''
   \<and> runGit ''git status'' [] env1 reset = (Inr not_a_repository, reset, [])"
proof -
  have i: "\<not> initialized reset" by (simp add: reset_def)
  have a: "arg (splitArgs ''git status'') 1 = Some ''status''"
    by (simp add: splitArgs_def trim_def is_space_def arg_def)
  have m: "''status'' \<in> set [''status'', ''add'', ''commit'', ''log'', ''branch'', ''checkout'', ''merge'',
                     ''remote'', ''push'', ''pull'', ''stash'', ''reset'', ''revert'']"
    by simp
  show ?thesis
    using runGit_not_initialized [OF i a m, of "[]" env1] i a by simp
qed

text \<open>\<^verbatim>\<open>git clone\<close> does not ask for an initialized repository: on the new repository it
  succeeds and initializes it.\<close>

theorem gitClone_not_initialized:
  "\<not> initialized reset
   \<and> outcome_ok (fst (runGit ''git clone https://x.io/r.git'' [] env1 reset))
   \<and> outcome_exitCode (fst (runGit ''git clone https://x.io/r.git'' [] env1 reset)) = Some 0
   \<and> initialized (fst (snd (runGit ''git clone https://x.io/r.git'' [] env1 reset)))"
proof -
  have a: "splitArgs ''git clone https://x.io/r.git'' = [''git'', ''clone'', ''https://x.io/r.git'']"
    by (simp add: splitArgs_def trim_def is_space_def)
  have t: "trim ''https://x.io/r.git'' = ''https://x.io/r.git''"
    by (simp add: trim_def is_space_def)
  show ?thesis
    by (simp add: runGit_def a arg_def truthy_def gitClone_def ensureRepo_def t Let_def
        outcome_ok_def outcome_exitCode_def success_def reset_def)
qed

subsection \<open>Commit\<close>

lemma map_of_overlay_step:
  "map_of (overlay_step (k, v) snap) = (map_of snap)(k := v)"
  by (cases v) (simp_all add: overlay_step_def delete_conv' update_conv')

lemma map_of_overlay:
  "distinct (map fst stg) \<Longrightarrow>
     map_of (overlay stg snap) p = (case map_of stg p of None \<Rightarrow> map_of snap p | Some v \<Rightarrow> v)"
proof (induction stg arbitrary: snap)
  case Nil
  show ?case by (simp add: overlay_def)
next
  case (Cons kv stg)
  obtain k v where kv: "kv = (k, v)" by (cases kv)
  from Cons.prems kv have d: "distinct (map fst stg)" and k: "map_of stg k = None"
    by (simp_all add: map_of_eq_None_iff)
  have "map_of (overlay (kv # stg) snap) p = map_of (overlay stg (overlay_step (k, v) snap)) p"
    by (simp add: overlay_def kv)
  also have "\<dots> = (case map_of stg p of None \<Rightarrow> map_of (overlay_step (k, v) snap) p | Some v \<Rightarrow> v)"
    using Cons.IH [OF d] by (simp add: overlay_def)
  also have "\<dots> = (case map_of (kv # stg) p of None \<Rightarrow> map_of snap p | Some v \<Rightarrow> v)"
    using k by (simp add: kv map_of_overlay_step split: option.splits)
  finally show ?case .
qed

lemma overlay_is_spec_overlay:
  assumes "distinct (map fst stg)"
  shows "map_of (overlay stg snap) = spec_overlay (map_of snap) (map_of stg)"
proof
  fix p
  show "map_of (overlay stg snap) p = spec_overlay (map_of snap) (map_of stg) p"
    by (simp add: map_of_overlay [OF assms] spec_overlay_def split: option.splits)
qed

lemma staged_Nil: "stagedFiles s = [] \<Longrightarrow> staged (getStatus s) = []"
proof (rule ccontr)
  assume e: "stagedFiles s = []" and "staged (getStatus s) \<noteq> []"
  then obtain x where "x \<in> set (staged (getStatus s))"
    by (cases "staged (getStatus s)") auto
  then have "hasOwn (stagedFiles s) (fst x)" by (simp add: staged_path)
  with e show False by (simp add: hasOwn_def)
qed

lemma gitCommit_nothing:
  "initialized s \<Longrightarrow> stagedFiles s = [] \<Longrightarrow>
     gitCommit args e s = (failure [''nothing to commit (no staged changes)''], s)"
  by (simp add: gitCommit_def staged_Nil)

lemma gitCommit_unmerged:
  "initialized s \<Longrightarrow> stagedFiles s \<noteq> [] \<Longrightarrow> conflicts_of s \<noteq> [] \<Longrightarrow>
     gitCommit args e s =
       (failure [''error: Committing is not possible because you have unmerged files.''], s)"
  by (simp add: gitCommit_def)

text \<open>The state after a commit that succeeds, field by field.\<close>

lemma gitCommit_success:
  assumes "initialized s" and "stagedFiles s \<noteq> []" and "conflicts_of s = []"
  shows "ok (fst (gitCommit args e s))" and "exitCode (fst (gitCommit args e s)) = 0"
    and "stagedFiles (snd (gitCommit args e s)) = []"
    and "mergeState (snd (gitCommit args e s)) = None"
    and "currentBranch (snd (gitCommit args e s)) = currentBranch s"
    and "branches (snd (gitCommit args e s)) = AList.update (currentBranch s) (Some (genHash e)) (branches s)"
    and "workingFiles (snd (gitCommit args e s)) = overlay (stagedFiles s) (workingFiles s)"
    and "commitOrder (snd (gitCommit args e s)) = commitOrder s @ [genHash e]"
    and "map_of (commits (snd (gitCommit args e s))) (genHash e) \<noteq> None"
    and "files (the (map_of (commits (snd (gitCommit args e s))) (genHash e)))
           = overlay (stagedFiles s) (getHeadSnapshot s)"
    and "parents (the (map_of (commits (snd (gitCommit args e s))) (genHash e)))
           = (if truthy (head s) then [the (head s)] else [])
                 @ (case mergeState s of None \<Rightarrow> []
                    | Some m \<Rightarrow> if truthy (theirHash m) then [the (theirHash m)] else [])"
    and "commits (snd (gitCommit args e s))
           = AList.update (genHash e) (the (map_of (commits (snd (gitCommit args e s))) (genHash e))) (commits s)"
  using assms
  by (simp_all add: gitCommit_def Let_def success_def set_head_def ensureBranchMeta_def update_conv'
      split: option.splits)

text \<open>
  Claim C5. \<^verbatim>\<open>git commit\<close> fails with exit code 1 when the index is empty or conflicts of a
  merge remain, and then changes nothing. Otherwise it succeeds: the commit stored under the
  new hash has the HEAD snapshot overlaid with the index as its files (a \<^verbatim>\<open>null\<close> entry
  deletes) and, as parents, the current head if there is one, then the head of the merged
  branch if a merge is being concluded; the branch points to it, the index is empty and the
  merge state is \<^verbatim>\<open>null\<close>.
\<close>

theorem gitCommit_spec:
  assumes "initialized s" and "distinct (map fst (stagedFiles s))"
  shows "(stagedFiles s = [] \<or> conflicts_of s \<noteq> [] \<longrightarrow>
            \<not> ok (fst (gitCommit args e s)) \<and> exitCode (fst (gitCommit args e s)) = 1
            \<and> snd (gitCommit args e s) = s)
         \<and> (stagedFiles s \<noteq> [] \<and> conflicts_of s = [] \<longrightarrow>
              ok (fst (gitCommit args e s)) \<and> exitCode (fst (gitCommit args e s)) = 0
              \<and> head (snd (gitCommit args e s)) = Some (genHash e)
              \<and> (\<exists>c. map_of (commits (snd (gitCommit args e s))) (genHash e) = Some c
                     \<and> map_of (files c) = spec_overlay (map_of (getHeadSnapshot s)) (map_of (stagedFiles s))
                     \<and> parents c = (if truthy (head s) then [the (head s)] else [])
                           @ (case mergeState s of None \<Rightarrow> []
                              | Some m \<Rightarrow> if truthy (theirHash m) then [the (theirHash m)] else []))
              \<and> stagedFiles (snd (gitCommit args e s)) = []
              \<and> mergeState (snd (gitCommit args e s)) = None)"
proof (intro conjI impI)
  assume f: "stagedFiles s = [] \<or> conflicts_of s \<noteq> []"
  have "gitCommit args e s = (failure [''nothing to commit (no staged changes)''], s)
        \<or> gitCommit args e s =
            (failure [''error: Committing is not possible because you have unmerged files.''], s)"
    using f gitCommit_nothing [OF assms(1)] gitCommit_unmerged [OF assms(1)] by blast
  then show "\<not> ok (fst (gitCommit args e s))" "exitCode (fst (gitCommit args e s)) = 1"
    "snd (gitCommit args e s) = s"
    by (auto simp: failure_def)
next
  assume "stagedFiles s \<noteq> [] \<and> conflicts_of s = []"
  then have ne: "stagedFiles s \<noteq> []" and nc: "conflicts_of s = []" by simp_all
  note su = gitCommit_success [OF assms(1) ne nc, of args e]
  show "ok (fst (gitCommit args e s))" by (rule su(1))
  show "exitCode (fst (gitCommit args e s)) = 0" by (rule su(2))
  show "stagedFiles (snd (gitCommit args e s)) = []" by (rule su(3))
  show "mergeState (snd (gitCommit args e s)) = None" by (rule su(4))
  show "head (snd (gitCommit args e s)) = Some (genHash e)"
    by (simp add: head_def su(5) su(6) update_conv')
  obtain c where c: "map_of (commits (snd (gitCommit args e s))) (genHash e) = Some c"
    using su(9) by blast
  have "map_of (files c) = spec_overlay (map_of (getHeadSnapshot s)) (map_of (stagedFiles s))"
    using su(10) c by (simp add: overlay_is_spec_overlay [OF assms(2)])
  moreover have "parents c = (if truthy (head s) then [the (head s)] else [])
             @ (case mergeState s of None \<Rightarrow> []
                | Some m \<Rightarrow> if truthy (theirHash m) then [the (theirHash m)] else [])"
    using su(11) c by simp
  ultimately show "\<exists>c. map_of (commits (snd (gitCommit args e s))) (genHash e) = Some c
       \<and> map_of (files c) = spec_overlay (map_of (getHeadSnapshot s)) (map_of (stagedFiles s))
       \<and> parents c = (if truthy (head s) then [the (head s)] else [])
             @ (case mergeState s of None \<Rightarrow> []
                | Some m \<Rightarrow> if truthy (theirHash m) then [the (theirHash m)] else [])"
    using c by blast
qed

theorem gitCommit_spec_witness:
  "initialized staged_then_edited \<and> distinct (map fst (stagedFiles staged_then_edited))
   \<and> \<not> ok (fst (gitCommit [''-m'', ''b''] env2 one_commit))
   \<and> ok (fst (gitCommit [''-m'', ''b''] env2 staged_then_edited))
   \<and> head (snd (gitCommit [''-m'', ''b''] env2 staged_then_edited)) = Some ''bbbbbbbbbbb2''
   \<and> stagedFiles (snd (gitCommit [''-m'', ''b''] env2 staged_then_edited)) = []"
proof -
  have i: "initialized staged_then_edited" "initialized one_commit"
    by (simp_all add: staged_then_edited_def one_commit_def reset_def)
  have d: "distinct (map fst (stagedFiles staged_then_edited))" "distinct (map fst (stagedFiles one_commit))"
    by (simp_all add: staged_then_edited_def one_commit_def reset_def)
  have n: "stagedFiles staged_then_edited \<noteq> []" "conflicts_of staged_then_edited = []"
    "stagedFiles one_commit = []"
    by (simp_all add: staged_then_edited_def one_commit_def reset_def conflicts_of_def)
  have g: "genHash env2 = ''bbbbbbbbbbb2''" by (simp add: env2_def)
  show ?thesis
    using gitCommit_spec [OF i(1) d(1), of "[''-m'', ''b'']" env2]
      gitCommit_spec [OF i(2) d(2), of "[''-m'', ''b'']" env2] i d n g
    by simp
qed

subsection \<open>Merge: ancestors\<close>

lemma getSnapshot_commits: "commits s' = commits s \<Longrightarrow> getSnapshot s' h = getSnapshot s h"
  by (simp add: getSnapshot_def)

lemma isAncestor_truthy: "isAncestor s a d \<Longrightarrow> truthy a \<and> truthy d"
  by (simp add: isAncestor_def split: if_splits)

lemma gitMerge_up_to_date:
  assumes "initialized s" and "\<not> isDirty (getStatus s)"
    and "truthy (arg args 0)" and "the (arg args 0) = b" and "hasOwn (branches s) b"
    and "map_of (branches s) b = Some theirs"
    and "isAncestor s theirs (head s)" and "\<not> isAncestor s (head s) theirs"
    and "truthy theirs" and "truthy (head s)"
  shows "gitMerge args e s = (success [''Already up to date.''], s)"
  using assms by (simp add: gitMerge_def Let_def)

lemma gitMerge_unborn:
  assumes "initialized s" and "\<not> isDirty (getStatus s)"
    and "truthy (arg args 0)" and "the (arg args 0) = b" and "hasOwn (branches s) b"
    and "map_of (branches s) b = Some theirs"
    and "truthy theirs" and "\<not> truthy (head s)"
  shows "gitMerge args e s =
        (success [''Fast-forward (simulated).''],
         (set_head theirs s)\<lparr> workingFiles := getHeadSnapshot (set_head theirs s),
            lastEvent := Some (Git_merge_ff b) \<rparr>)"
  using assms by (simp add: gitMerge_def Let_def)

lemma gitMerge_forward:
  assumes "initialized s" and "\<not> isDirty (getStatus s)"
    and "truthy (arg args 0)" and "the (arg args 0) = b" and "hasOwn (branches s) b"
    and "map_of (branches s) b = Some theirs"
    and "truthy theirs" and "truthy (head s)" and "isAncestor s (head s) theirs"
  shows "gitMerge args e s =
        (success [''Fast-forward (simulated).''],
         (set_head theirs s)\<lparr> workingFiles := getHeadSnapshot (set_head theirs s),
            lastEvent := Some (Git_merge_ff b) \<rparr>)"
  using assms by (simp add: gitMerge_def Let_def)

lemma fast_forward_state:
  assumes "s' = (set_head theirs s)\<lparr> workingFiles := getHeadSnapshot (set_head theirs s),
            lastEvent := ev \<rparr>"
  shows "head s' = theirs" and "branches s' = AList.update (currentBranch s) theirs (branches s)"
    and "currentBranch s' = currentBranch s" and "workingFiles s' = getSnapshot s theirs"
    and "commits s' = commits s"
proof -
  show "head s' = theirs"
    using head_set_head [of theirs s] by (simp add: assms head_def)
  show "branches s' = AList.update (currentBranch s) theirs (branches s)"
    by (simp add: assms set_head_def)
  show "currentBranch s' = currentBranch s"
    by (simp add: assms set_head_def)
  have "getHeadSnapshot (set_head theirs s) = getSnapshot (set_head theirs s) theirs"
    by (simp add: getHeadSnapshot_def head_set_head)
  also have "\<dots> = getSnapshot s theirs"
    by (rule getSnapshot_commits) (simp add: set_head_def)
  finally show "workingFiles s' = getSnapshot s theirs"
    by (simp add: assms)
  show "commits s' = commits s"
    by (simp add: assms set_head_def)
qed

text \<open>
  Claim C7, as the code has it. On a clean working tree, merging a branch whose head is an
  ancestor of the current head, the current head not being an ancestor of it, reports
  \<^verbatim>\<open>Already up to date.\<close> and changes nothing. Merging a branch with a commit at its head, when
  the current head is \<^verbatim>\<open>null\<close> or an ancestor of that head (the same commit included),
  fast-forwards: the head of the current branch becomes the head of that branch and the
  working tree becomes the snapshot of that commit.
\<close>

theorem gitMerge_ancestor_cases:
  assumes "initialized s" and "\<not> isDirty (getStatus s)"
    and "arg args 0 = Some b" and "b \<noteq> []" and "map_of (branches s) b = Some theirs"
  shows "(isAncestor s theirs (head s) \<and> \<not> isAncestor s (head s) theirs \<longrightarrow>
            gitMerge args e s = (success [''Already up to date.''], s))
         \<and> (truthy theirs \<and> (\<not> truthy (head s) \<or> isAncestor s (head s) theirs) \<longrightarrow>
              fst (gitMerge args e s) = success [''Fast-forward (simulated).'']
              \<and> head (snd (gitMerge args e s)) = theirs
              \<and> branches (snd (gitMerge args e s)) = AList.update (currentBranch s) theirs (branches s)
              \<and> currentBranch (snd (gitMerge args e s)) = currentBranch s
              \<and> workingFiles (snd (gitMerge args e s)) = getSnapshot s theirs
              \<and> commits (snd (gitMerge args e s)) = commits s)"
proof -
  have p1: "truthy (arg args 0)" using assms(3,4) by (simp add: truthy_def)
  have p2: "the (arg args 0) = b" using assms(3) by simp
  have p3: "hasOwn (branches s) b" using assms(5) by (simp add: hasOwn_def)
  have up: "gitMerge args e s = (success [''Already up to date.''], s)"
    if a: "isAncestor s theirs (head s)" and n: "\<not> isAncestor s (head s) theirs"
  proof -
    from a have "truthy theirs" and "truthy (head s)"
      by (simp_all add: isAncestor_truthy)
    then show ?thesis
      using gitMerge_up_to_date [OF assms(1,2) p1 p2 p3 assms(5) a n] by simp
  qed
  have ff: "gitMerge args e s =
        (success [''Fast-forward (simulated).''],
         (set_head theirs s)\<lparr> workingFiles := getHeadSnapshot (set_head theirs s),
            lastEvent := Some (Git_merge_ff b) \<rparr>)"
    if t: "truthy theirs" and d: "\<not> truthy (head s) \<or> isAncestor s (head s) theirs"
  proof (cases "truthy (head s)")
    case False
    then show ?thesis
      by (rule gitMerge_unborn [OF assms(1,2) p1 p2 p3 assms(5) t])
  next
    case True
    with d have "isAncestor s (head s) theirs" by simp
    with True show ?thesis
      by (rule gitMerge_forward [OF assms(1,2) p1 p2 p3 assms(5) t])
  qed
  show ?thesis
  proof (intro conjI impI)
    assume "isAncestor s theirs (head s) \<and> \<not> isAncestor s (head s) theirs"
    then show "gitMerge args e s = (success [''Already up to date.''], s)"
      using up by simp
  next
    assume f: "truthy theirs \<and> (\<not> truthy (head s) \<or> isAncestor s (head s) theirs)"
    then have g: "gitMerge args e s =
        (success [''Fast-forward (simulated).''],
         (set_head theirs s)\<lparr> workingFiles := getHeadSnapshot (set_head theirs s),
            lastEvent := Some (Git_merge_ff b) \<rparr>)"
      using ff by simp
    then have s': "snd (gitMerge args e s) = (set_head theirs s)\<lparr> workingFiles := getHeadSnapshot (set_head theirs s),
            lastEvent := Some (Git_merge_ff b) \<rparr>"
      by simp
    show "fst (gitMerge args e s) = success [''Fast-forward (simulated).'']"
      using g by simp
    show "head (snd (gitMerge args e s)) = theirs"
      by (rule fast_forward_state(1) [OF s'])
    show "branches (snd (gitMerge args e s)) = AList.update (currentBranch s) theirs (branches s)"
      by (rule fast_forward_state(2) [OF s'])
    show "currentBranch (snd (gitMerge args e s)) = currentBranch s"
      by (rule fast_forward_state(3) [OF s'])
    show "workingFiles (snd (gitMerge args e s)) = getSnapshot s theirs"
      by (rule fast_forward_state(4) [OF s'])
    show "commits (snd (gitMerge args e s)) = commits s"
      by (rule fast_forward_state(5) [OF s'])
  qed
qed

lemma clean_main_behind: "\<not> isDirty (getStatus main_behind)"
  by code_simp

lemma clean_feat_ahead: "\<not> isDirty (getStatus feat_ahead)"
  by code_simp

lemma clean_two_branches: "\<not> isDirty (getStatus two_branches)"
  by code_simp

theorem gitMerge_ancestor_cases_witness:
  "initialized feat_ahead \<and> \<not> isDirty (getStatus feat_ahead) \<and> arg [''main''] 0 = Some ''main''
   \<and> map_of (branches feat_ahead) ''main'' = Some (Some ''aaaaaaaaaaa1'')
   \<and> isAncestor feat_ahead (Some ''aaaaaaaaaaa1'') (head feat_ahead)
   \<and> \<not> isAncestor feat_ahead (head feat_ahead) (Some ''aaaaaaaaaaa1'')
   \<and> gitMerge [''main''] env1 feat_ahead = (success [''Already up to date.''], feat_ahead)
   \<and> isAncestor main_behind (head main_behind) (Some ''bbbbbbbbbbb2'')
   \<and> head (snd (gitMerge [''feat''] env1 main_behind)) = Some ''bbbbbbbbbbb2''
   \<and> workingFiles (snd (gitMerge [''feat''] env1 main_behind)) = [(''/f'', ''2'')]"
proof -
  have i: "initialized feat_ahead" "initialized main_behind"
    by (simp_all add: feat_ahead_def main_behind_def two_branches_def one_commit_def reset_def)
  have a: "arg [''main''] 0 = Some ''main''" "arg [''feat''] 0 = Some ''feat''"
    by (simp_all add: arg_def)
  have n: "''main'' \<noteq> []" "''feat'' \<noteq> []" by simp_all
  have b: "map_of (branches feat_ahead) ''main'' = Some (Some ''aaaaaaaaaaa1'')"
    "map_of (branches main_behind) ''feat'' = Some (Some ''bbbbbbbbbbb2'')"
    by (simp_all add: feat_ahead_def main_behind_def)
  have h: "head feat_ahead = Some ''bbbbbbbbbbb2''" "head main_behind = Some ''aaaaaaaaaaa1''"
    by (simp_all add: head_def feat_ahead_def main_behind_def)
  have c: "commits feat_ahead = [(''aaaaaaaaaaa1'', commit_a), (''bbbbbbbbbbb2'', commit_b)]"
    "commits main_behind = [(''aaaaaaaaaaa1'', commit_a), (''bbbbbbbbbbb2'', commit_b)]"
    by (simp_all add: feat_ahead_def main_behind_def)
  have an: "isAncestor feat_ahead (Some ''aaaaaaaaaaa1'') (head feat_ahead)"
    "\<not> isAncestor feat_ahead (head feat_ahead) (Some ''aaaaaaaaaaa1'')"
    "isAncestor main_behind (head main_behind) (Some ''bbbbbbbbbbb2'')"
    by (simp_all add: isAncestor_def h c truthy_def commit_a_def commit_b_def)
  have t: "truthy (Some ''bbbbbbbbbbb2'')" by (simp add: truthy_def)
  have sn: "getSnapshot main_behind (Some ''bbbbbbbbbbb2'') = [(''/f'', ''2'')]"
    by (simp add: getSnapshot_def truthy_def c commit_b_def)
  show ?thesis
    using gitMerge_ancestor_cases [OF i(1) clean_feat_ahead a(1) n(1) b(1), of env1]
      gitMerge_ancestor_cases [OF i(2) clean_main_behind a(2) n(2) b(2), of env1]
      i clean_feat_ahead a b an t sn
    by simp
qed

text \<open>
  When both heads are the same commit, each is an ancestor of the other, and the merge is a
  fast-forward: it does not report \<^verbatim>\<open>Already up to date.\<close>, and it records a new event.
\<close>

theorem gitMerge_equal_heads:
  "initialized two_branches \<and> \<not> isDirty (getStatus two_branches)
   \<and> isAncestor two_branches (Some ''aaaaaaaaaaa1'') (head two_branches)
   \<and> stdout (fst (gitMerge [''feat''] env1 two_branches)) = [''Fast-forward (simulated).'']
   \<and> lastEvent two_branches = Some (Git_branch_create ''feat'')
   \<and> lastEvent (snd (gitMerge [''feat''] env1 two_branches)) = Some (Git_merge_ff ''feat'')"
proof -
  have i: "initialized two_branches"
    by (simp add: two_branches_def one_commit_def reset_def)
  have a: "arg [''feat''] 0 = Some ''feat''" by (simp add: arg_def)
  have b: "map_of (branches two_branches) ''feat'' = Some (Some ''aaaaaaaaaaa1'')"
    by (simp add: two_branches_def)
  have h: "head two_branches = Some ''aaaaaaaaaaa1''"
    by (simp add: head_def two_branches_def one_commit_def reset_def)
  have an: "isAncestor two_branches (Some ''aaaaaaaaaaa1'') (head two_branches)"
    by (simp add: isAncestor_def h truthy_def)
  have g: "gitMerge [''feat''] env1 two_branches =
        (success [''Fast-forward (simulated).''],
         (set_head (Some ''aaaaaaaaaaa1'') two_branches)\<lparr>
            workingFiles := getHeadSnapshot (set_head (Some ''aaaaaaaaaaa1'') two_branches),
            lastEvent := Some (Git_merge_ff ''feat'') \<rparr>)"
    using i clean_two_branches a b an
    by (simp add: gitMerge_def Let_def truthy_def hasOwn_def h)
  show ?thesis
    using i clean_two_branches an by (simp add: g success_def) (simp add: two_branches_def)
qed

subsection \<open>Merge: three ways\<close>

lemma map_of_put: "map_of (put p v m) = (map_of m)(p := v)"
  by (cases v) (simp_all add: put_def delete_conv' update_conv')

lemma distinct_put: "distinct (map fst m) \<Longrightarrow> distinct (map fst (put p v m))"
  by (cases v) (simp_all add: put_def distinct_delete distinct_update)

text \<open>One step of the three-way loop writes the path it is given, and no other.\<close>

lemma map_of_merge_step:
  "map_of (fst (merge_step base os ts tb p acc)) =
     (map_of (fst acc))(p :=
        (if map_of os p = map_of ts p then map_of os p
         else if map_of os p = map_of base p then map_of ts p
         else if map_of ts p = map_of base p then map_of os p
         else Some (conflict_buffer (map_of os p) (map_of ts p) tb)))"
  by (simp add: merge_step_def Let_def map_of_put update_conv')

lemma conflicts_merge_step:
  "snd (merge_step base os ts tb p acc) =
     snd acc @ (if map_of os p \<noteq> map_of ts p \<and> map_of os p \<noteq> map_of base p
                  \<and> map_of ts p \<noteq> map_of base p then [p] else [])"
  by (simp add: merge_step_def Let_def)

lemma distinct_merge_step:
  "distinct (map fst (fst acc)) \<Longrightarrow> distinct (map fst (fst (merge_step base os ts tb p acc)))"
  by (simp add: merge_step_def Let_def distinct_put distinct_update)

lemma map_of_fold_merge_step:
  "map_of (fst (fold (merge_step base os ts tb) ps acc)) q =
     (if q \<in> set ps then
        (if map_of os q = map_of ts q then map_of os q
         else if map_of os q = map_of base q then map_of ts q
         else if map_of ts q = map_of base q then map_of os q
         else Some (conflict_buffer (map_of os q) (map_of ts q) tb))
      else map_of (fst acc) q)"
proof (induction ps arbitrary: acc)
  case Nil
  show ?case by simp
next
  case (Cons p ps)
  show ?case
    by (simp add: Cons.IH map_of_merge_step)
qed

lemma conflicts_fold_merge_step:
  "set (snd (fold (merge_step base os ts tb) ps acc)) =
     set (snd acc) \<union> {p \<in> set ps. map_of os p \<noteq> map_of ts p \<and> map_of os p \<noteq> map_of base p
                                  \<and> map_of ts p \<noteq> map_of base p}"
proof (induction ps arbitrary: acc)
  case Nil
  show ?case by simp
next
  case (Cons p ps)
  show ?case
    by (simp add: Cons.IH conflicts_merge_step) blast
qed

lemma distinct_fold_merge_step:
  "distinct (map fst (fst acc)) \<Longrightarrow>
     distinct (map fst (fst (fold (merge_step base os ts tb) ps acc)))"
proof (induction ps arbitrary: acc)
  case Nil
  then show ?case by simp
next
  case (Cons p ps)
  then show ?case
    by (simp add: distinct_merge_step)
qed

lemma differ_in_paths:
  assumes "map_of os p \<noteq> map_of ts p"
  shows "p \<in> set (uniq (map fst base @ map fst os @ map fst ts))"
proof -
  from assms have "map_of os p \<noteq> None \<or> map_of ts p \<noteq> None" by auto
  then have "p \<in> fst ` set os \<or> p \<in> fst ` set ts"
    by (simp add: map_of_eq_None_iff)
  then show ?thesis by (auto simp: set_uniq)
qed

text \<open>The merged snapshot, path by path: the case analysis of the loop.\<close>

lemma map_of_three_way:
  "map_of (fst (three_way s ours theirs tb)) p =
     (let b = map_of (getSnapshot s (findCommonAncestor s ours theirs)) p;
          ov = map_of (getSnapshot s ours) p;
          tv = map_of (getSnapshot s theirs) p
      in if ov = tv then ov else if ov = b then tv else if tv = b then ov
         else Some (conflict_buffer ov tv tb))"
  using differ_in_paths [of "getSnapshot s ours" p "getSnapshot s theirs"
      "getSnapshot s (findCommonAncestor s ours theirs)"]
  by (simp add: three_way_def Let_def map_of_fold_merge_step)

lemma conflicts_three_way:
  "p \<in> set (snd (three_way s ours theirs tb)) \<longleftrightarrow>
     map_of (getSnapshot s ours) p \<noteq> map_of (getSnapshot s theirs) p
     \<and> map_of (getSnapshot s ours) p \<noteq> map_of (getSnapshot s (findCommonAncestor s ours theirs)) p
     \<and> map_of (getSnapshot s theirs) p \<noteq> map_of (getSnapshot s (findCommonAncestor s ours theirs)) p"
  using differ_in_paths [of "getSnapshot s ours" p "getSnapshot s theirs"
      "getSnapshot s (findCommonAncestor s ours theirs)"]
  by (auto simp: three_way_def Let_def conflicts_fold_merge_step)

lemma distinct_three_way:
  "distinct (map fst (getSnapshot s ours)) \<Longrightarrow> distinct (map fst (fst (three_way s ours theirs tb)))"
  by (simp add: three_way_def Let_def distinct_fold_merge_step)

text \<open>Staging a whole snapshot, and the deletions beside it.\<close>

lemma stage_all_append:
  "map_of (stage_all snap stg) p =
     (case map_of (rev snap) p of None \<Rightarrow> map_of stg p | Some c \<Rightarrow> Some (Some c))"
proof (induction snap arbitrary: stg)
  case Nil
  show ?case by (simp add: stage_all_def)
next
  case (Cons kv snap)
  obtain k v where kv: "kv = (k, v)" by (cases kv)
  have "map_of (stage_all (kv # snap) stg) p = map_of (stage_all snap (AList.update k (Some v) stg)) p"
    by (simp add: stage_all_def kv)
  also have "\<dots> = (case map_of (rev snap) p of
                      None \<Rightarrow> map_of (AList.update k (Some v) stg) p | Some c \<Rightarrow> Some (Some c))"
    by (rule Cons.IH)
  also have "\<dots> = (case map_of (rev (kv # snap)) p of None \<Rightarrow> map_of stg p | Some c \<Rightarrow> Some (Some c))"
    by (simp add: kv update_conv' map_add_def split: option.splits)
  finally show ?case .
qed

lemma map_of_rev_distinct:
  assumes "distinct (map fst xs)"
  shows "map_of (rev xs) = map_of xs"
proof -
  have "distinct (map fst (rev xs))"
    using assms by (simp add: rev_map [symmetric])
  then show ?thesis
    using assms by (simp add: map_of_inject_set)
qed

lemma map_of_stage_all:
  assumes "distinct (map fst snap)"
  shows "map_of (stage_all snap []) p = map_option Some (map_of snap p)"
  using assms by (simp add: stage_all_append map_of_rev_distinct split: option.splits)

lemma distinct_stage_all: "distinct (map fst stg) \<Longrightarrow> distinct (map fst (stage_all snap stg))"
proof (induction snap arbitrary: stg)
  case Nil
  then show ?case by (simp add: stage_all_def)
next
  case (Cons kv snap)
  from Cons.prems have "distinct (map fst (AList.update (fst kv) (Some (snd kv)) stg))"
    by (rule distinct_update)
  then have "distinct (map fst (stage_all snap (AList.update (fst kv) (Some (snd kv)) stg)))"
    by (rule Cons.IH)
  then show ?case
    by (simp add: stage_all_def case_prod_unfold)
qed

lemma map_of_stage_deletions:
  "map_of (stage_deletions ps present stg) p =
     (if p \<in> set ps \<and> \<not> hasOwn present p then Some None else map_of stg p)"
proof (induction ps arbitrary: stg)
  case Nil
  show ?case by (simp add: stage_deletions_def)
next
  case (Cons q ps)
  have "map_of (stage_deletions (q # ps) present stg) p =
        map_of (stage_deletions ps present (if \<not> hasOwn present q then AList.update q None stg else stg)) p"
    by (simp add: stage_deletions_def)
  also have "\<dots> = (if p \<in> set ps \<and> \<not> hasOwn present p then Some None
                    else map_of (if \<not> hasOwn present q then AList.update q None stg else stg) p)"
    by (rule Cons.IH)
  also have "\<dots> = (if p \<in> set (q # ps) \<and> \<not> hasOwn present p then Some None else map_of stg p)"
    by (auto simp: update_conv')
  finally show ?case .
qed

lemma distinct_stage_deletions:
  "distinct (map fst stg) \<Longrightarrow> distinct (map fst (stage_deletions ps present stg))"
proof (induction ps arbitrary: stg)
  case Nil
  then show ?case by (simp add: stage_deletions_def)
next
  case (Cons q ps)
  from Cons.prems have "distinct (map fst (if \<not> hasOwn present q then AList.update q None stg else stg))"
    by (simp add: distinct_update)
  then have "distinct (map fst (stage_deletions ps present
                 (if \<not> hasOwn present q then AList.update q None stg else stg)))"
    by (rule Cons.IH)
  then show ?case
    by (simp add: stage_deletions_def)
qed

text \<open>Committing an index that was staged from the working tree leaves the working tree, read
  as a map, as it is.\<close>

lemma overlay_staged_from_working:
  assumes "distinct (map fst w)"
  shows "map_of (overlay (stage_deletions ps w (stage_all w [])) w) = map_of w"
proof
  fix p
  have d: "distinct (map fst (stage_deletions ps w (stage_all w [])))"
    by (intro distinct_stage_deletions distinct_stage_all) simp
  show "map_of (overlay (stage_deletions ps w (stage_all w [])) w) p = map_of w p"
    by (simp add: map_of_overlay [OF d] map_of_stage_deletions map_of_stage_all [OF assms] hasOwn_def
        split: option.splits)
qed

lemma gitMerge_conflicting:
  assumes "initialized s" and "\<not> isDirty (getStatus s)"
    and "truthy (arg args 0)" and "the (arg args 0) = b" and "hasOwn (branches s) b"
    and "map_of (branches s) b = Some theirs"
    and "truthy theirs" and "truthy (head s)"
    and "\<not> isAncestor s (head s) theirs" and "\<not> isAncestor s theirs (head s)"
    and "snd (three_way s (head s) theirs b) \<noteq> []"
  shows "\<not> ok (fst (gitMerge args e s))" and "exitCode (fst (gitMerge args e s)) = 1"
    and "workingFiles (snd (gitMerge args e s)) = fst (three_way s (head s) theirs b)"
    and "mergeState (snd (gitMerge args e s)) =
           Some \<lparr> theirBranch = b, theirHash = theirs, conflicts = snd (three_way s (head s) theirs b) \<rparr>"
  using assms by (simp_all add: gitMerge_def Let_def)

lemma gitMerge_without_conflict:
  assumes "initialized s" and "\<not> isDirty (getStatus s)"
    and "truthy (arg args 0)" and "the (arg args 0) = b" and "hasOwn (branches s) b"
    and "map_of (branches s) b = Some theirs"
    and "truthy theirs" and "truthy (head s)"
    and "\<not> isAncestor s (head s) theirs" and "\<not> isAncestor s theirs (head s)"
    and "snd (three_way s (head s) theirs b) = []"
  shows "workingFiles (snd (gitMerge args e s)) =
           workingFiles (snd (gitCommit [''-m'', ''Merge branch '' @ quoted b] e
             (s\<lparr> workingFiles := fst (three_way s (head s) theirs b),
                 mergeState := Some \<lparr> theirBranch = b, theirHash = theirs, conflicts = [] \<rparr>,
                 stagedFiles := stage_deletions (map fst (getSnapshot s (head s)))
                                  (fst (three_way s (head s) theirs b))
                                  (stage_all (fst (three_way s (head s) theirs b)) []) \<rparr>)))"
  using assms by (simp add: gitMerge_def Let_def)

text \<open>The merge commit leaves the merged working tree, read as a map, as it is.\<close>

lemma commit_staged_from_working:
  assumes "initialized s" and "conflicts_of s = []" and "distinct (map fst (workingFiles s))"
    and "stagedFiles s = stage_deletions ps (workingFiles s) (stage_all (workingFiles s) [])"
  shows "map_of (workingFiles (snd (gitCommit margs e s))) = map_of (workingFiles s)"
proof (cases "stagedFiles s = []")
  case True
  then show ?thesis
    by (simp add: gitCommit_nothing [OF assms(1)])
next
  case False
  have "workingFiles (snd (gitCommit margs e s)) = overlay (stagedFiles s) (workingFiles s)"
    by (rule gitCommit_success(7) [OF assms(1) False assms(2)])
  then show ?thesis
    by (simp add: assms(4) overlay_staged_from_working [OF assms(3)])
qed

text \<open>
  Claim C6, as the code has it. In a three-way merge (clean working tree, both heads present,
  neither an ancestor of the other), for a path whose contents in ours and in theirs differ
  from each other and from base, the merge returns exit code 1, the path is in
  \<^verbatim>\<open>mergeState.conflicts\<close>, and the file in the working tree is
  \<^verbatim>\<open>"<<<<<<< HEAD\n" + ours + "\n=======\n" + theirs + "\n>>>>>>> " + branch + "\n"\<close>, which ends
  with a line feed after the name of the branch; a side that lacks the path gives the empty
  text. Any other path has the content that both sides agree on, else the content of theirs
  when ours equals base, else that of ours when theirs equals base.
\<close>

theorem gitMerge_three_way:
  assumes "initialized s" and "\<not> isDirty (getStatus s)"
    and "arg args 0 = Some b" and "b \<noteq> []" and "map_of (branches s) b = Some theirs"
    and "truthy theirs" and "truthy (head s)"
    and "\<not> isAncestor s (head s) theirs" and "\<not> isAncestor s theirs (head s)"
    and "distinct (map fst (getSnapshot s (head s)))"
    and "bv = map_of (getSnapshot s (findCommonAncestor s (head s) theirs)) p"
    and "ov = map_of (getSnapshot s (head s)) p"
    and "tv = map_of (getSnapshot s theirs) p"
  shows "(ov \<noteq> tv \<and> ov \<noteq> bv \<and> tv \<noteq> bv \<longrightarrow>
            \<not> ok (fst (gitMerge args e s)) \<and> exitCode (fst (gitMerge args e s)) = 1
            \<and> (\<exists>m. mergeState (snd (gitMerge args e s)) = Some m \<and> p \<in> set (conflicts m))
            \<and> map_of (workingFiles (snd (gitMerge args e s))) p =
                Some (''<<<<<<< HEAD'' @ [CHR 0x0A] @ (case ov of None \<Rightarrow> [] | Some x \<Rightarrow> x) @ [CHR 0x0A]
                      @ ''======='' @ [CHR 0x0A] @ (case tv of None \<Rightarrow> [] | Some x \<Rightarrow> x) @ [CHR 0x0A]
                      @ ''>>>>>>> '' @ b @ [CHR 0x0A]))
         \<and> (ov = tv \<longrightarrow> map_of (workingFiles (snd (gitMerge args e s))) p = ov)
         \<and> (ov \<noteq> tv \<and> ov = bv \<longrightarrow> map_of (workingFiles (snd (gitMerge args e s))) p = tv)
         \<and> (ov \<noteq> tv \<and> ov \<noteq> bv \<and> tv = bv \<longrightarrow> map_of (workingFiles (snd (gitMerge args e s))) p = ov)"
proof -
  have p1: "truthy (arg args 0)" using assms(3,4) by (simp add: truthy_def)
  have p2: "the (arg args 0) = b" using assms(3) by simp
  have p3: "hasOwn (branches s) b" using assms(5) by (simp add: hasOwn_def)
  note pre = assms(1,2) p1 p2 p3 assms(5-9)
  let ?tw = "three_way s (head s) theirs b"
  have val: "map_of (fst ?tw) p =
      (if ov = tv then ov else if ov = bv then tv else if tv = bv then ov
       else Some (conflict_buffer ov tv b))"
    by (simp add: map_of_three_way assms(11-13) Let_def)
  have cf: "p \<in> set (snd ?tw) \<longleftrightarrow> ov \<noteq> tv \<and> ov \<noteq> bv \<and> tv \<noteq> bv"
    by (simp add: conflicts_three_way assms(11-13))
  have w: "map_of (workingFiles (snd (gitMerge args e s))) = map_of (fst ?tw)"
  proof (cases "snd ?tw = []")
    case False
    show ?thesis
      by (simp add: gitMerge_conflicting(3) [OF pre False])
  next
    case True
    let ?s3 = "s\<lparr> workingFiles := fst ?tw,
                 mergeState := Some \<lparr> theirBranch = b, theirHash = theirs, conflicts = [] \<rparr>,
                 stagedFiles := stage_deletions (map fst (getSnapshot s (head s))) (fst ?tw)
                                  (stage_all (fst ?tw) []) \<rparr>"
    have "map_of (workingFiles (snd (gitCommit [''-m'', ''Merge branch '' @ quoted b] e ?s3)))
            = map_of (workingFiles ?s3)"
      by (rule commit_staged_from_working [where ps = "map fst (getSnapshot s (head s))"])
         (simp_all add: assms(1) conflicts_of_def distinct_three_way [OF assms(10)])
    then show ?thesis
      by (simp add: gitMerge_without_conflict [OF pre True])
  qed
  show ?thesis
  proof (intro conjI impI)
    assume c: "ov \<noteq> tv \<and> ov \<noteq> bv \<and> tv \<noteq> bv"
    then have ne: "snd ?tw \<noteq> []" using cf by auto
    show "\<not> ok (fst (gitMerge args e s))" by (rule gitMerge_conflicting(1) [OF pre ne])
    show "exitCode (fst (gitMerge args e s)) = 1" by (rule gitMerge_conflicting(2) [OF pre ne])
    show "\<exists>m. mergeState (snd (gitMerge args e s)) = Some m \<and> p \<in> set (conflicts m)"
      using c cf by (simp add: gitMerge_conflicting(4) [OF pre ne])
    show "map_of (workingFiles (snd (gitMerge args e s))) p =
                Some (''<<<<<<< HEAD'' @ [CHR 0x0A] @ (case ov of None \<Rightarrow> [] | Some x \<Rightarrow> x) @ [CHR 0x0A]
                      @ ''======='' @ [CHR 0x0A] @ (case tv of None \<Rightarrow> [] | Some x \<Rightarrow> x) @ [CHR 0x0A]
                      @ ''>>>>>>> '' @ b @ [CHR 0x0A])"
      using c by (simp add: w val conflict_buffer_def)
  next
    assume "ov = tv"
    then show "map_of (workingFiles (snd (gitMerge args e s))) p = ov"
      by (simp add: w val)
  next
    assume "ov \<noteq> tv \<and> ov = bv"
    then show "map_of (workingFiles (snd (gitMerge args e s))) p = tv"
      by (simp add: w val)
  next
    assume "ov \<noteq> tv \<and> ov \<noteq> bv \<and> tv = bv"
    then show "map_of (workingFiles (snd (gitMerge args e s))) p = ov"
      by (simp add: w val)
  qed
qed

lemma clean_diverged: "\<not> isDirty (getStatus diverged)"
  by code_simp

lemma heads_diverged:
  "head diverged = Some ''ccccccccccc3''"
  "map_of (branches diverged) ''feat'' = Some (Some ''bbbbbbbbbbb2'')"
  "commits diverged = [(''aaaaaaaaaaa1'', commit_blue), (''bbbbbbbbbbb2'', commit_green),
                 (''ccccccccccc3'', commit_red)]"
  by (simp_all add: diverged_def head_def reset_def)

lemma not_ancestors_diverged:
  "\<not> isAncestor diverged (Some ''ccccccccccc3'') (Some ''bbbbbbbbbbb2'')"
  "\<not> isAncestor diverged (Some ''bbbbbbbbbbb2'') (Some ''ccccccccccc3'')"
  by (simp_all add: isAncestor_def truthy_def heads_diverged commit_blue_def commit_green_def commit_red_def)

lemma base_diverged:
  "findCommonAncestor diverged (Some ''ccccccccccc3'') (Some ''bbbbbbbbbbb2'') = Some ''aaaaaaaaaaa1''"
  by code_simp

lemma snapshots_diverged:
  "getSnapshot diverged (Some ''aaaaaaaaaaa1'') = [(''/config'', ''blue'')]"
  "getSnapshot diverged (Some ''bbbbbbbbbbb2'') = [(''/config'', ''green'')]"
  "getSnapshot diverged (Some ''ccccccccccc3'') = [(''/config'', ''red'')]"
  by (simp_all add: getSnapshot_def truthy_def heads_diverged commit_blue_def commit_green_def commit_red_def)

theorem gitMerge_three_way_witness:
  "initialized diverged \<and> \<not> isDirty (getStatus diverged) \<and> arg [''feat''] 0 = Some ''feat''
   \<and> map_of (branches diverged) ''feat'' = Some (Some ''bbbbbbbbbbb2'')
   \<and> \<not> isAncestor diverged (head diverged) (Some ''bbbbbbbbbbb2'')
   \<and> \<not> isAncestor diverged (Some ''bbbbbbbbbbb2'') (head diverged)
   \<and> exitCode (fst (gitMerge [''feat''] env1 diverged)) = 1
   \<and> map_of (workingFiles (snd (gitMerge [''feat''] env1 diverged))) ''/config'' =
       Some (''<<<<<<< HEAD'' @ [CHR 0x0A] @ ''red'' @ [CHR 0x0A] @ ''======='' @ [CHR 0x0A] @ ''green''
             @ [CHR 0x0A] @ ''>>>>>>> feat'' @ [CHR 0x0A])
   \<and> map_of (workingFiles (snd (gitMerge [''feat''] env1 diverged))) ''/other'' = None"
proof -
  have i: "initialized diverged" by (simp add: diverged_def reset_def)
  have a: "arg [''feat''] 0 = Some ''feat''" by (simp add: arg_def)
  have n: "''feat'' \<noteq> []" by simp
  have t: "truthy (Some ''bbbbbbbbbbb2'')" "truthy (head diverged)"
    by (simp_all add: truthy_def heads_diverged)
  have na: "\<not> isAncestor diverged (head diverged) (Some ''bbbbbbbbbbb2'')"
    "\<not> isAncestor diverged (Some ''bbbbbbbbbbb2'') (head diverged)"
    by (simp_all add: heads_diverged not_ancestors_diverged)
  have d: "distinct (map fst (getSnapshot diverged (head diverged)))"
    by (simp add: heads_diverged snapshots_diverged)
  have v: "Some ''blue'' = map_of (getSnapshot diverged (findCommonAncestor diverged (head diverged) (Some ''bbbbbbbbbbb2''))) ''/config''"
    "Some ''red'' = map_of (getSnapshot diverged (head diverged)) ''/config''"
    "Some ''green'' = map_of (getSnapshot diverged (Some ''bbbbbbbbbbb2'')) ''/config''"
    by (simp_all add: heads_diverged base_diverged snapshots_diverged)
  have v': "None = map_of (getSnapshot diverged (findCommonAncestor diverged (head diverged) (Some ''bbbbbbbbbbb2''))) ''/other''"
    "None = map_of (getSnapshot diverged (head diverged)) ''/other''"
    "None = map_of (getSnapshot diverged (Some ''bbbbbbbbbbb2'')) ''/other''"
    by (simp_all add: heads_diverged base_diverged snapshots_diverged)
  show ?thesis
    using gitMerge_three_way [OF i clean_diverged a n heads_diverged(2) t na d v, of env1]
      gitMerge_three_way [OF i clean_diverged a n heads_diverged(2) t na d v', of env1]
      i clean_diverged a heads_diverged(2) na
    by simp
qed

text \<open>
  The buffer of the third scenario of the specification ends with a line feed: it is not the
  text that stops after the name of the branch.
\<close>

theorem gitMerge_buffer_line_feed:
  "map_of (getSnapshot diverged (head diverged)) ''/config'' = Some ''red''
   \<and> map_of (getSnapshot diverged (Some ''bbbbbbbbbbb2'')) ''/config'' = Some ''green''
   \<and> map_of (getSnapshot diverged (findCommonAncestor diverged (head diverged) (Some ''bbbbbbbbbbb2'')))
        ''/config'' = Some ''blue''
   \<and> map_of (workingFiles (snd (gitMerge [''feat''] env1 diverged))) ''/config'' \<noteq>
       Some (''<<<<<<< HEAD'' @ [CHR 0x0A] @ ''red'' @ [CHR 0x0A] @ ''======='' @ [CHR 0x0A] @ ''green''
             @ [CHR 0x0A] @ ''>>>>>>> '' @ ''feat'')"
proof -
  have i: "initialized diverged" by (simp add: diverged_def reset_def)
  have p: "truthy (arg [''feat''] 0)" "the (arg [''feat''] 0) = ''feat''" "hasOwn (branches diverged) ''feat''"
    by (simp_all add: arg_def truthy_def hasOwn_def heads_diverged)
  have t: "truthy (Some ''bbbbbbbbbbb2'')" "truthy (head diverged)"
    by (simp_all add: truthy_def heads_diverged)
  have na: "\<not> isAncestor diverged (head diverged) (Some ''bbbbbbbbbbb2'')"
    "\<not> isAncestor diverged (Some ''bbbbbbbbbbb2'') (head diverged)"
    by (simp_all add: heads_diverged not_ancestors_diverged)
  have c: "''/config'' \<in> set (snd (three_way diverged (head diverged) (Some ''bbbbbbbbbbb2'') ''feat''))"
    by (simp add: conflicts_three_way heads_diverged base_diverged snapshots_diverged)
  then have ne: "snd (three_way diverged (head diverged) (Some ''bbbbbbbbbbb2'') ''feat'') \<noteq> []"
    by auto
  have "map_of (workingFiles (snd (gitMerge [''feat''] env1 diverged))) ''/config'' =
       Some (''<<<<<<< HEAD'' @ [CHR 0x0A] @ ''red'' @ [CHR 0x0A] @ ''======='' @ [CHR 0x0A] @ ''green''
             @ [CHR 0x0A] @ ''>>>>>>> feat'' @ [CHR 0x0A])"
    by (simp add: gitMerge_conflicting(3) [OF i clean_diverged p heads_diverged(2) t na ne]
        map_of_three_way heads_diverged base_diverged snapshots_diverged conflict_buffer_def)
  then show ?thesis
    by (simp add: heads_diverged base_diverged snapshots_diverged)
qed

subsection \<open>Persistence\<close>

lemma ensure_main_present: "hasOwn bs ''main'' \<Longrightarrow> ensure_main bs = bs"
  by (auto simp: ensure_main_def hasOwn_def update_triv split: option.splits)

text \<open>The round trip gives the state back, \<^verbatim>\<open>lastEvent\<close> apart, when the current branch has a
  commit and the entries that \<^verbatim>\<open>deserialize\<close> looks for are there.\<close>

lemma deserialize_serialize_born:
  assumes "truthy (head s)" and "hasOwn (branches s) ''main''"
    and "map_of (branchMeta s) ''main'' = Some m" and "map_of (directories s) ''/'' = Some True"
  shows "deserialize (serialize s) = s\<lparr> lastEvent := None \<rparr>"
  using assms
  by (simp add: deserialize_def serialize_def or_default_def reset_def ensure_main_present head_def
      Let_def)

text \<open>The repository with the unborn branch is what the two commands give.\<close>

lemma init_reached:
  "exec ''git init'' [] env1 reset =
     (Inr (success [''Initialized empty Git repository (simulated).'']),
      reset\<lparr> initialized := True, lastEvent := Some Git_init \<rparr>, [])"
  by code_simp

lemma unborn_feat_reached:
  "fst (snd (exec ''git checkout -b feat'' [] env1 (reset\<lparr> initialized := True, lastEvent := Some Git_init \<rparr>)))
     = unborn_feat"
  by code_simp

text \<open>
  Claim C4 at the unborn branch. The current branch \<^verbatim>\<open>feat\<close> has no commit; after
  \<^verbatim>\<open>serialize\<close> and \<^verbatim>\<open>deserialize\<close> the current branch is \<^verbatim>\<open>main\<close>, the first key of
  \<^verbatim>\<open>branches\<close>.
\<close>

theorem deserialize_serialize_unborn:
  "currentBranch unborn_feat = ''feat'' \<and> head unborn_feat = None
   \<and> currentBranch (deserialize (serialize unborn_feat)) = ''main''"
  by (simp add: unborn_feat_def reset_def head_def deserialize_def serialize_def or_default_def
      ensure_main_def truthy_def or_else_def Let_def)

subsection \<open>Push\<close>

lemma push_commits_keys:
  "push_commits local hs rc0 = Inr rc \<Longrightarrow> h \<in> set hs \<or> hasOwn rc0 h \<Longrightarrow> hasOwn rc h"
proof (induction hs arbitrary: rc0)
  case Nil
  then show ?case by simp
next
  case (Cons k hs)
  show ?case
  proof (cases "map_of rc0 k")
    case (Some c)
    with Cons.prems have "push_commits local hs rc0 = Inr rc" and "h \<in> set hs \<or> hasOwn rc0 h"
      by (auto simp: hasOwn_def)
    then show ?thesis by (rule Cons.IH)
  next
    case None
    with Cons.prems(1) obtain c where c: "map_of local k = Some c"
      and r: "push_commits local hs (AList.update k c rc0) = Inr rc"
      by (auto split: option.splits)
    from Cons.prems(2) have "h \<in> set hs \<or> hasOwn (AList.update k c rc0) h"
      by (auto simp: hasOwn_def update_conv')
    with r show ?thesis by (rule Cons.IH)
  qed
qed

lemma getRepo_update: "getRepo (AList.update (trim u) rr store) u = Some rr"
  by (simp add: getRepo_def update_conv')

text \<open>What a push that succeeds went through.\<close>

lemma gitPush_ok:
  assumes "gitPush args store s = (Inr r, s', store')" and "ok r"
  obtains u store1 rr rc h where
    "map_of (remotes s) (push_remoteName args s) = Some u"
    and "ensureRepo store u = Inr (store1, rr)"
    and "map_of (branches s) (push_branchName args s) = Some (Some h)"
    and "push_commits (commits s) (commitOrder s) (r_commits rr) = Inr rc"
    and "store' = AList.update (trim u)
           (rr\<lparr> r_commits := rc,
               r_commitOrder := r_commitOrder rr @ filter (\<lambda>h. h \<notin> set (r_commitOrder rr)) (commitOrder s),
               r_branches := AList.update (push_branchName args s) (Some h) (r_branches rr) \<rparr>) store1"
    and "branches s' = branches s" and "commits s' = commits s" and "remotes s' = remotes s"
proof -
  have i: "initialized s"
  proof (rule ccontr)
    assume "\<not> initialized s"
    then have "gitPush args store s = (Inr not_a_repository, s, store)"
      by (simp add: gitPush_def)
    with assms show False by (auto simp: not_a_repository_def failure_def)
  qed
  obtain u where u: "map_of (remotes s) (push_remoteName args s) = Some u"
  proof (cases "map_of (remotes s) (push_remoteName args s)")
    case None
    with i have "\<not> ok (case fst (gitPush args store s) of Inr x \<Rightarrow> x)"
      by (simp add: gitPush_def Let_def failure_def)
    with assms show ?thesis by simp
  next
    case (Some u)
    then show ?thesis by (rule that)
  qed
  obtain store1 rr where e: "ensureRepo store u = Inr (store1, rr)"
  proof (cases "ensureRepo store u")
    case (Inl err)
    with i u have "fst (gitPush args store s) = Inl err"
      by (simp add: gitPush_def Let_def)
    with assms show ?thesis by simp
  next
    case (Inr x)
    then show ?thesis by (cases x) (simp add: that)
  qed
  let ?lh = "case map_of (branches s) (push_branchName args s) of None \<Rightarrow> None | Some h \<Rightarrow> h"
  have t: "truthy ?lh"
  proof (rule ccontr)
    assume "\<not> truthy ?lh"
    with i u e have "\<not> ok (case fst (gitPush args store s) of Inr x \<Rightarrow> x)"
      by (simp add: gitPush_def Let_def failure_def)
    with assms show False by simp
  qed
  then obtain h where h: "map_of (branches s) (push_branchName args s) = Some (Some h)"
    by (auto simp: truthy_def split: option.splits)
  obtain rc where pc: "push_commits (commits s) (commitOrder s) (r_commits rr) = Inr rc"
  proof (cases "push_commits (commits s) (commitOrder s) (r_commits rr)")
    case (Inl x)
    with i u e t have "fst (gitPush args store s) = Inl SyntaxError"
      by (simp add: gitPush_def Let_def)
    with assms show ?thesis by simp
  next
    case (Inr rc)
    then show ?thesis by (rule that)
  qed
  have s': "snd (gitPush args store s) = (s', store')"
    using assms(1) by simp
  have "store' = AList.update (trim u)
           (rr\<lparr> r_commits := rc,
               r_commitOrder := r_commitOrder rr @ filter (\<lambda>h. h \<notin> set (r_commitOrder rr)) (commitOrder s),
               r_branches := AList.update (push_branchName args s) (Some h) (r_branches rr) \<rparr>) store1"
    and "branches s' = branches s" and "commits s' = commits s" and "remotes s' = remotes s"
    using s' i u e t h pc by (auto simp: gitPush_def Let_def)
  with u e h pc show ?thesis by (rule that)
qed

lemma gitPush_commits:
  "commits (fst (snd (gitPush args store s))) = commits s
   \<and> commitOrder (fst (snd (gitPush args store s))) = commitOrder s"
proof (cases "initialized s")
  case False
  then show ?thesis by (simp add: gitPush_def)
next
  case i: True
  show ?thesis
  proof (cases "map_of (remotes s) (push_remoteName args s)")
    case None
    with i show ?thesis by (simp add: gitPush_def Let_def)
  next
    case (Some u)
    show ?thesis
    proof (cases "ensureRepo store u")
      case (Inl err)
      with i Some show ?thesis by (simp add: gitPush_def Let_def)
    next
      case (Inr x)
      obtain store1 rr where x: "x = (store1, rr)" by (cases x)
      show ?thesis
      proof (cases "truthy (case map_of (branches s) (push_branchName args s) of
                              None \<Rightarrow> None | Some h \<Rightarrow> h)")
        case False
        with i Some Inr x show ?thesis by (simp add: gitPush_def Let_def)
      next
        case t: True
        show ?thesis
        proof (cases "push_commits (commits s) (commitOrder s) (r_commits rr)")
          case (Inl rc)
          with i Some Inr x t show ?thesis by (simp add: gitPush_def Let_def)
        next
          case copied: (Inr rc)
          with i Some Inr x t show ?thesis by (simp add: gitPush_def Let_def)
        qed
      qed
    qed
  qed
qed


text \<open>
  Claim C8, as the code has it. After a push that succeeds, of branch B to remote R, the
  remote stored under the URL of R has the local head of B, a commit, as its
  \<^verbatim>\<open>branches[B]\<close>, and every hash of the local \<^verbatim>\<open>commitOrder\<close> is in the \<^verbatim>\<open>commits\<close> of the
  remote: the push copies by \<^verbatim>\<open>commitOrder\<close>, not by reachability. So, when every local
  commit is listed in \<^verbatim>\<open>commitOrder\<close>, every local commit reachable from that head is in
  the \<^verbatim>\<open>commits\<close> of the remote.
\<close>

theorem gitPush_spec:
  assumes "gitPush args store s = (Inr r, s', store')" and "ok r"
  shows "\<exists>u rr h. map_of (remotes s') (push_remoteName args s) = Some u \<and> getRepo store' u = Some rr
           \<and> map_of (r_branches rr) (push_branchName args s)
               = map_of (branches s') (push_branchName args s)
           \<and> map_of (branches s') (push_branchName args s) = Some (Some h)
           \<and> (\<forall>k \<in> set (commitOrder s'). hasOwn (r_commits rr) k)
           \<and> (order_complete s' \<longrightarrow>
                (\<forall>k c. reachable (commits s') h k \<and> map_of (commits s') k = Some c
                       \<longrightarrow> hasOwn (r_commits rr) k))"
proof -
  from assms(1,2) obtain u store1 rr rc h where
    u: "map_of (remotes s) (push_remoteName args s) = Some u"
    and h: "map_of (branches s) (push_branchName args s) = Some (Some h)"
    and pc: "push_commits (commits s) (commitOrder s) (r_commits rr) = Inr rc"
    and st: "store' = AList.update (trim u)
           (rr\<lparr> r_commits := rc,
               r_commitOrder := r_commitOrder rr @ filter (\<lambda>h. h \<notin> set (r_commitOrder rr)) (commitOrder s),
               r_branches := AList.update (push_branchName args s) (Some h) (r_branches rr) \<rparr>) store1"
    and same: "branches s' = branches s" "commits s' = commits s"
    and rem: "remotes s' = remotes s"
    by (rule gitPush_ok)
  have ord: "commitOrder s' = commitOrder s"
    using gitPush_commits [of args store s] by (simp add: assms(1))
  define rr' where "rr' = rr\<lparr> r_commits := rc,
               r_commitOrder := r_commitOrder rr @ filter (\<lambda>h. h \<notin> set (r_commitOrder rr)) (commitOrder s),
               r_branches := AList.update (push_branchName args s) (Some h) (r_branches rr) \<rparr>"
  have rc: "r_commits rr' = rc"
    and rb: "r_branches rr' = AList.update (push_branchName args s) (Some h) (r_branches rr)"
    by (simp_all add: rr'_def)
  from st have st: "store' = AList.update (trim u) rr' store1"
    by (simp add: rr'_def)
  have listed: "hasOwn (r_commits rr') k" if "k \<in> set (commitOrder s)" for k
    using push_commits_keys [OF pc, of k] that by (simp add: rc)
  have "map_of (remotes s') (push_remoteName args s) = Some u"
    by (simp add: rem u)
  moreover have "getRepo store' u = Some rr'"
    by (simp add: st getRepo_update)
  moreover have "map_of (r_branches rr') (push_branchName args s)
               = map_of (branches s') (push_branchName args s)"
    by (simp add: rb same h update_conv')
  moreover have "map_of (branches s') (push_branchName args s) = Some (Some h)"
    by (simp add: same h)
  moreover have "\<forall>k \<in> set (commitOrder s'). hasOwn (r_commits rr') k"
    using listed by (simp add: ord)
  moreover have "order_complete s' \<longrightarrow>
                (\<forall>k c. reachable (commits s') h k \<and> map_of (commits s') k = Some c
                       \<longrightarrow> hasOwn (r_commits rr') k)"
  proof (intro impI allI)
    fix k c
    assume oc: "order_complete s'"
      and "reachable (commits s') h k \<and> map_of (commits s') k = Some c"
    then have "k \<in> fst ` set (commits s)"
      by (auto simp: same dest: map_of_SomeD intro: rev_image_eqI)
    with oc have "k \<in> set (commitOrder s)"
      by (simp add: order_complete_def same ord)
    then show "hasOwn (r_commits rr') k"
      by (rule listed)
  qed
  ultimately show ?thesis by blast
qed


lemma push_example:
  "outcome_ok (fst (gitPush [''-u'', ''origin'', ''main''] empty_store with_remote))"
  "remotes (fst (snd (gitPush [''-u'', ''origin'', ''main''] empty_store with_remote)))
     = [(''origin'', ''https://x.io/r.git'')]"
  "branches (fst (snd (gitPush [''-u'', ''origin'', ''main''] empty_store with_remote)))
     = [(''main'', Some ''aaaaaaaaaaa1'')]"
  "commits (fst (snd (gitPush [''-u'', ''origin'', ''main''] empty_store with_remote)))
     = [(''aaaaaaaaaaa1'', commit_a)]"
  "push_remoteName [''-u'', ''origin'', ''main''] with_remote = ''origin''"
  "push_branchName [''-u'', ''origin'', ''main''] with_remote = ''main''"
  by code_simp+

lemma push_example_order:
  "commitOrder (fst (snd (gitPush [''-u'', ''origin'', ''main''] empty_store with_remote)))
     = [''aaaaaaaaaaa1'']"
  by code_simp

theorem gitPush_spec_witness:
  "outcome_ok (fst (gitPush [''-u'', ''origin'', ''main''] empty_store with_remote))
   \<and> order_complete (fst (snd (gitPush [''-u'', ''origin'', ''main''] empty_store with_remote)))
   \<and> ''aaaaaaaaaaa1'' \<in> set (commitOrder (fst (snd (gitPush [''-u'', ''origin'', ''main''] empty_store with_remote))))
   \<and> (\<exists>rr. getRepo (snd (snd (gitPush [''-u'', ''origin'', ''main''] empty_store with_remote)))
               ''https://x.io/r.git'' = Some rr
          \<and> map_of (r_branches rr) ''main'' = Some (Some ''aaaaaaaaaaa1'')
          \<and> hasOwn (r_commits rr) ''aaaaaaaaaaa1'')"
proof -
  let ?g = "gitPush [''-u'', ''origin'', ''main''] empty_store with_remote"
  obtain r where r: "fst ?g = Inr r" and ok: "ok r"
    using push_example(1) by (cases "fst ?g") (simp_all add: outcome_ok_def)
  have g: "?g = (Inr r, fst (snd ?g), snd (snd ?g))"
    using r by (simp add: prod_eq_iff)
  have oc: "order_complete (fst (snd ?g))"
    by (simp add: order_complete_def push_example push_example_order)
  from gitPush_spec [OF g ok] obtain u rr h where
    u: "map_of (remotes (fst (snd ?g))) (push_remoteName [''-u'', ''origin'', ''main''] with_remote) = Some u"
    and rr: "getRepo (snd (snd ?g)) u = Some rr"
    and b: "map_of (r_branches rr) (push_branchName [''-u'', ''origin'', ''main''] with_remote)
             = map_of (branches (fst (snd ?g))) (push_branchName [''-u'', ''origin'', ''main''] with_remote)"
    and h: "map_of (branches (fst (snd ?g))) (push_branchName [''-u'', ''origin'', ''main''] with_remote)
             = Some (Some h)"
    and listed: "\<forall>k \<in> set (commitOrder (fst (snd ?g))). hasOwn (r_commits rr) k"
    and all: "order_complete (fst (snd ?g)) \<longrightarrow>
                (\<forall>k c. reachable (commits (fst (snd ?g))) h k \<and> map_of (commits (fst (snd ?g))) k = Some c
                   \<longrightarrow> hasOwn (r_commits rr) k)"
    by blast
  from u have u': "u = ''https://x.io/r.git''"
    by (simp add: push_example)
  from h have h': "h = ''aaaaaaaaaaa1''"
    by (simp add: push_example)
  have "reachable (commits (fst (snd ?g))) h h"
    by (rule reachable_head)
  moreover have "map_of (commits (fst (snd ?g))) h = Some commit_a"
    by (simp add: push_example h')
  ultimately have "hasOwn (r_commits rr) h"
    using all oc by blast
  then show ?thesis
    using push_example(1) oc rr b h by (auto simp: u' h' push_example push_example_order)
qed

text \<open>
  A repository loaded from a stored object without \<^verbatim>\<open>commitOrder\<close>: the push of \<^verbatim>\<open>main\<close>
  succeeds and sets the head of the remote, and the commit at that head is not copied.
\<close>

theorem gitPush_unlisted_commit:
  "outcome_ok (fst (gitPush [''origin'', ''main''] empty_store unlisted_commit))
   \<and> map_of (branches unlisted_commit) ''main'' = Some (Some ''aaaaaaaaaaa1'')
   \<and> map_of (commits unlisted_commit) ''aaaaaaaaaaa1'' = Some commit_a
   \<and> map_of (remotes unlisted_commit) ''origin'' = Some ''https://x.io/r.git''
   \<and> map_option r_branches
        (getRepo (snd (snd (gitPush [''origin'', ''main''] empty_store unlisted_commit))) ''https://x.io/r.git'')
       = Some [(''main'', Some ''aaaaaaaaaaa1'')]
   \<and> map_option r_commits
        (getRepo (snd (snd (gitPush [''origin'', ''main''] empty_store unlisted_commit))) ''https://x.io/r.git'')
       = Some []"
  by code_simp

subsection \<open>Commands that fail\<close>

lemma gitStatus_fail: "\<not> ok (fst (gitStatus s)) \<Longrightarrow> snd (gitStatus s) = s"
  by (simp add: gitStatus_def Let_def split: if_splits)

lemma gitCommit_fail: "\<not> ok (fst (gitCommit args e s)) \<Longrightarrow> snd (gitCommit args e s) = s"
proof (cases "initialized s")
  case False
  then show ?thesis by (simp add: gitCommit_def)
next
  case True
  assume f: "\<not> ok (fst (gitCommit args e s))"
  show ?thesis
  proof (cases "stagedFiles s = []")
    case True
    with \<open>initialized s\<close> show ?thesis by (simp add: gitCommit_nothing)
  next
    case False
    with f \<open>initialized s\<close> have "conflicts_of s \<noteq> []"
      using gitCommit_success(1) [of s args e] by blast
    with False \<open>initialized s\<close> show ?thesis by (simp add: gitCommit_unmerged)
  qed
qed

lemma gitLog_fail: "\<not> ok (fst (gitLog args e s)) \<Longrightarrow> snd (gitLog args e s) = s"
  by (simp add: gitLog_def split: if_splits)

lemma gitBranch_fail: "\<not> ok (fst (gitBranch args s)) \<Longrightarrow> snd (gitBranch args s) = s"
  by (simp add: gitBranch_def Let_def success_def split: if_splits)

lemma gitCheckout_fail: "\<not> ok (fst (gitCheckout args s)) \<Longrightarrow> snd (gitCheckout args s) = s"
  by (simp add: gitCheckout_def Let_def success_def split: if_splits)

lemma gitStash_fail: "\<not> ok (fst (gitStash args e s)) \<Longrightarrow> snd (gitStash args e s) = s"
  by (simp add: gitStash_def Let_def success_def split: if_splits list.splits)

lemma gitReset_fail: "\<not> ok (fst (gitReset args s)) \<Longrightarrow> snd (gitReset args s) = s"
  by (auto simp: gitReset_def Let_def success_def split: if_splits option.splits sum.splits)

lemma gitRemote_fail:
  "\<not> outcome_ok (fst (gitRemote args store s)) \<Longrightarrow> snd (gitRemote args store s) = (s, store)"
  by (auto simp: gitRemote_def Let_def success_def outcome_ok_def split: if_splits sum.splits prod.splits)

lemma gitClone_fail:
  "\<not> outcome_ok (fst (gitClone args store s)) \<Longrightarrow> snd (gitClone args store s) = (s, store)"
  by (auto simp: gitClone_def Let_def success_def outcome_ok_def split: if_splits sum.splits prod.splits)

text \<open>A push that fails leaves the repository as it was; the store may have got the empty
  remote from \<^verbatim>\<open>ensureRepo\<close>, and the commits copied before an exception.\<close>

lemma gitPush_fail:
  assumes "\<not> outcome_ok (fst (gitPush args store s))"
  shows "fst (snd (gitPush args store s)) = s"
proof (cases "initialized s")
  case False
  then show ?thesis by (simp add: gitPush_def)
next
  case i: True
  show ?thesis
  proof (cases "map_of (remotes s) (push_remoteName args s)")
    case None
    with i show ?thesis by (simp add: gitPush_def Let_def)
  next
    case (Some u)
    show ?thesis
    proof (cases "ensureRepo store u")
      case (Inl err)
      with i Some show ?thesis by (simp add: gitPush_def Let_def)
    next
      case (Inr x)
      obtain store1 rr where x: "x = (store1, rr)" by (cases x)
      show ?thesis
      proof (cases "truthy (case map_of (branches s) (push_branchName args s) of
                              None \<Rightarrow> None | Some h \<Rightarrow> h)")
        case False
        with i Some Inr x show ?thesis by (simp add: gitPush_def Let_def)
      next
        case t: True
        show ?thesis
        proof (cases "push_commits (commits s) (commitOrder s) (r_commits rr)")
          case (Inl rc)
          with i Some Inr x t show ?thesis by (simp add: gitPush_def Let_def)
        next
          case copied: (Inr rc)
          with i Some Inr x t have "outcome_ok (fst (gitPush args store s))"
            by (simp add: gitPush_def Let_def outcome_ok_def success_def)
          with assms show ?thesis by simp
        qed
      qed
    qed
  qed
qed

lemma runShell_fail: "\<not> ok (fst (runShell line s)) \<Longrightarrow> snd (runShell line s) = s"
  by (auto simp: runShell_def Let_def shell_ok_def split: if_splits option.splits prod.splits)

text \<open>\<^verbatim>\<open>git add\<close> stages every target that is in the working tree, whether or not another
  target fails to match; when it fails, the index and the conflict list are all it changed.\<close>

lemma add_step_other:
  "q \<noteq> p \<Longrightarrow> map_of (fst (add_step s q acc)) p = map_of (fst acc) p"
  by (cases acc) (simp add: add_step_def update_conv')

lemma add_step_same:
  "map_of (workingFiles s) p = Some c \<Longrightarrow> map_of (fst (add_step s p acc)) p = Some (Some c)"
  by (cases acc) (simp add: add_step_def hasOwn_def update_conv')

lemma fold_add_step_keeps:
  assumes "map_of (workingFiles s) p = Some c" and "map_of (fst acc) p = Some (Some c)"
  shows "map_of (fst (fold (add_step s) ts acc)) p = Some (Some c)"
  using assms(2)
proof (induction ts arbitrary: acc)
  case Nil
  then show ?case by simp
next
  case (Cons q ts)
  have "map_of (fst (add_step s q acc)) p = Some (Some c)"
    using Cons.prems add_step_other [of q p s acc] add_step_same [OF assms(1), of acc]
    by (cases "q = p") simp_all
  then show ?case
    by (simp add: Cons.IH)
qed

lemma fold_add_step_stages:
  assumes "map_of (workingFiles s) p = Some c" and "p \<in> set ts"
  shows "map_of (fst (fold (add_step s) ts acc)) p = Some (Some c)"
  using assms(2)
proof (induction ts arbitrary: acc)
  case Nil
  then show ?case by simp
next
  case (Cons q ts)
  show ?case
  proof (cases "q = p")
    case True
    then show ?thesis
      using fold_add_step_keeps [OF assms(1) add_step_same [OF assms(1), of acc], of ts] by simp
  next
    case False
    with Cons.prems have "p \<in> set ts" by simp
    then show ?thesis by (simp add: Cons.IH)
  qed
qed

lemma gitAdd_stages:
  assumes "initialized s" and "args \<noteq> []" and "p \<in> set (add_targets s args)"
    and "map_of (workingFiles s) p = Some c"
  shows "map_of (stagedFiles (snd (gitAdd args s))) p = Some (Some c)"
proof -
  obtain stg confl added errors where
    f: "fold (add_step s) (add_targets s args) (stagedFiles s, uniq (conflicts_of s), [], [])
          = (stg, confl, added, errors)"
    by (cases "fold (add_step s) (add_targets s args) (stagedFiles s, uniq (conflicts_of s), [], [])")
  have "map_of stg p = Some (Some c)"
    using fold_add_step_stages [OF assms(4,3), of "(stagedFiles s, uniq (conflicts_of s), [], [])"]
    by (simp add: f)
  moreover have "stagedFiles (snd (gitAdd args s)) = stg"
    using assms(1,2) by (simp add: gitAdd_def f Let_def split: option.splits)
  ultimately show ?thesis by simp
qed

lemma gitAdd_initialized: "\<not> initialized s \<Longrightarrow> gitAdd args s = (not_a_repository, s)"
  by (simp add: gitAdd_def)


lemma gitInit_ok: "ok (fst (gitInit s))"
  by (simp add: gitInit_def Let_def success_def)

lemma runGit_fail:
  assumes "\<not> outcome_ok (fst (runGit line store e s))"
    and "arg (splitArgs line) 1 \<notin> Some ` set [''add'', ''merge'', ''pull'', ''revert'']"
  shows "fst (snd (runGit line store e s)) = s
         \<and> (arg (splitArgs line) 1 \<noteq> Some ''push'' \<longrightarrow> snd (snd (runGit line store e s)) = store)"
proof (cases "truthy (arg (splitArgs line) 1)")
  case False
  then show ?thesis by (simp add: runGit_def)
next
  case True
  then obtain sub where sub: "arg (splitArgs line) 1 = Some sub"
    by (auto simp: truthy_def split: option.splits)
  let ?rest = "drop 2 (splitArgs line)"
  from assms(2) sub have n: "sub \<noteq> ''add''" "sub \<noteq> ''merge''" "sub \<noteq> ''pull''" "sub \<noteq> ''revert''"
    by auto
  consider "sub = ''init''" | "sub = ''status''" | "sub = ''commit''" | "sub = ''log''"
    | "sub = ''branch''" | "sub = ''checkout''" | "sub = ''remote''" | "sub = ''push''"
    | "sub = ''clone''" | "sub = ''stash''" | "sub = ''reset''"
    | "sub \<notin> set [''init'', ''status'', ''add'', ''commit'', ''log'', ''branch'', ''checkout'', ''merge'',
                     ''remote'', ''push'', ''pull'', ''clone'', ''stash'', ''reset'', ''revert'']"
    using n by auto
  then show ?thesis
  proof cases
    case 1
    with True sub have "runGit line store e s = lift store (gitInit s)"
      by (simp add: runGit_def)
    with assms(1) show ?thesis
      by (simp add: lift_def outcome_ok_def gitInit_ok)
  next
    case 2
    with True sub have "runGit line store e s = lift store (gitStatus s)"
      by (simp add: runGit_def)
    with assms(1) show ?thesis
      by (simp add: lift_def outcome_ok_def gitStatus_fail)
  next
    case 3
    with True sub have "runGit line store e s = lift store (gitCommit ?rest e s)"
      by (simp add: runGit_def)
    with assms(1) show ?thesis
      by (simp add: lift_def outcome_ok_def gitCommit_fail)
  next
    case 4
    with True sub have "runGit line store e s = lift store (gitLog ?rest e s)"
      by (simp add: runGit_def)
    with assms(1) show ?thesis
      by (simp add: lift_def outcome_ok_def gitLog_fail)
  next
    case 5
    with True sub have "runGit line store e s = lift store (gitBranch ?rest s)"
      by (simp add: runGit_def)
    with assms(1) show ?thesis
      by (simp add: lift_def outcome_ok_def gitBranch_fail)
  next
    case 6
    with True sub have "runGit line store e s = lift store (gitCheckout ?rest s)"
      by (simp add: runGit_def)
    with assms(1) show ?thesis
      by (simp add: lift_def outcome_ok_def gitCheckout_fail)
  next
    case 7
    with True sub have "runGit line store e s = gitRemote ?rest store s"
      by (simp add: runGit_def)
    with assms(1) show ?thesis
      by (simp add: gitRemote_fail)
  next
    case 8
    with True sub have "runGit line store e s = gitPush ?rest store s"
      by (simp add: runGit_def)
    with assms(1) sub 8 show ?thesis
      by (simp add: gitPush_fail)
  next
    case 9
    with True sub have "runGit line store e s = gitClone ?rest store s"
      by (simp add: runGit_def)
    with assms(1) show ?thesis
      by (simp add: gitClone_fail)
  next
    case 10
    with True sub have "runGit line store e s = lift store (gitStash ?rest e s)"
      by (simp add: runGit_def)
    with assms(1) show ?thesis
      by (simp add: lift_def outcome_ok_def gitStash_fail)
  next
    case 11
    with True sub have "runGit line store e s = lift store (gitReset ?rest s)"
      by (simp add: runGit_def)
    with assms(1) show ?thesis
      by (simp add: lift_def outcome_ok_def gitReset_fail)
  next
    case 12
    with True sub show ?thesis
      by (simp add: runGit_def)
  qed
qed

lemma runGit_add:
  assumes "arg (splitArgs line) 1 = Some ''add''"
  shows "runGit line store e s = lift store (gitAdd (drop 2 (splitArgs line)) s)"
  using assms by (simp add: runGit_def truthy_def)

lemma ensureRepo_store:
  assumes "ensureRepo store u = Inr (store1, rr)"
  shows "store1 = store
         \<or> (map_of store (trim u) = None
            \<and> store1 = AList.update (trim u) (createEmptyRemote (trim u)) store)"
  using assms by (auto simp: ensureRepo_def Let_def split: if_splits option.splits)

lemma gitPush_fail_store:
  assumes "\<not> outcome_ok (fst (gitPush args store s))"
    and "fst (gitPush args store s) \<noteq> Inl SyntaxError"
  shows "snd (snd (gitPush args store s)) = store
         \<or> (\<exists>u. map_of (remotes s) (push_remoteName args s) = Some u
                \<and> map_of store (trim u) = None
                \<and> snd (snd (gitPush args store s))
                     = AList.update (trim u) (createEmptyRemote (trim u)) store)"
proof (cases "initialized s")
  case False
  then show ?thesis by (simp add: gitPush_def)
next
  case i: True
  show ?thesis
  proof (cases "map_of (remotes s) (push_remoteName args s)")
    case None
    with i show ?thesis by (simp add: gitPush_def Let_def)
  next
    case (Some u)
    show ?thesis
    proof (cases "ensureRepo store u")
      case (Inl err)
      with i Some show ?thesis by (simp add: gitPush_def Let_def)
    next
      case (Inr x)
      obtain store1 rr where x: "x = (store1, rr)" by (cases x)
      note st = ensureRepo_store [OF Inr [unfolded x]]
      show ?thesis
      proof (cases "truthy (case map_of (branches s) (push_branchName args s) of
                              None \<Rightarrow> None | Some h \<Rightarrow> h)")
        case False
        with i Some Inr x have "snd (snd (gitPush args store s)) = store1"
          by (simp add: gitPush_def Let_def)
        with st Some show ?thesis by auto
      next
        case t: True
        show ?thesis
        proof (cases "push_commits (commits s) (commitOrder s) (r_commits rr)")
          case (Inl rc)
          with i Some Inr x t have "fst (gitPush args store s) = Inl SyntaxError"
            by (simp add: gitPush_def Let_def)
          with assms(2) show ?thesis by simp
        next
          case copied: (Inr rc)
          with i Some Inr x t have "outcome_ok (fst (gitPush args store s))"
            by (simp add: gitPush_def Let_def outcome_ok_def success_def)
          with assms(1) show ?thesis by simp
        qed
      qed
    qed
  qed
qed

text \<open>What \<^verbatim>\<open>git add\<close> does to the conflict list and to the index, target by target.\<close>

lemma add_step_conflicts:
  "fst (snd (add_step s p (stg, confl, a, e)))
     = (if hasOwn (workingFiles s) p then removeAll p confl else confl)"
  by (simp add: add_step_def)

lemma fold_add_step_conflicts:
  "fst (snd (fold (add_step s) ts acc))
     = filter (\<lambda>q. \<not> (q \<in> set ts \<and> hasOwn (workingFiles s) q)) (fst (snd acc))"
proof (induction ts arbitrary: acc)
  case Nil
  show ?case by simp
next
  case (Cons p ts)
  obtain stg confl a e where acc: "acc = (stg, confl, a, e)"
    by (cases acc)
  have r: "filter P (removeAll p confl) = filter (\<lambda>q. q \<noteq> p \<and> P q) confl" for P
    by (induction confl) auto
  show ?case
    unfolding acc fold_Cons comp_def Cons.IH add_step_conflicts
    by (auto simp: r intro: filter_cong)
qed

lemma map_of_add_step:
  "map_of (fst (add_step s q acc)) p =
     (if q = p \<and> hasOwn (workingFiles s) p then Some (map_of (workingFiles s) p)
      else if q = p \<and> hasOwn (getHeadSnapshot s) p then Some None
      else map_of (fst acc) p)"
  by (cases acc) (simp add: add_step_def update_conv')

lemma map_of_fold_add_step:
  "map_of (fst (fold (add_step s) ts acc)) p =
     (if p \<in> set ts \<and> hasOwn (workingFiles s) p then Some (map_of (workingFiles s) p)
      else if p \<in> set ts \<and> hasOwn (getHeadSnapshot s) p then Some None
      else map_of (fst acc) p)"
proof (induction ts arbitrary: acc)
  case Nil
  show ?case by simp
next
  case (Cons q ts)
  show ?case
    by (simp add: Cons.IH map_of_add_step)
qed

text \<open>A \<^verbatim>\<open>git add\<close> that fails on an initialized repository, with arguments: the index and the
  conflict list are what the loop made of them, and nothing else changed.\<close>

lemma gitAdd_fail_state:
  assumes "initialized s" and "args \<noteq> []" and "\<not> ok (fst (gitAdd args s))"
  shows "snd (gitAdd args s) =
           s\<lparr> stagedFiles := stagedFiles (snd (gitAdd args s)),
              mergeState := map_option
                (\<lambda>m. m\<lparr> conflicts := filter (\<lambda>q. \<not> (q \<in> set (add_targets s args)
                                                       \<and> hasOwn (workingFiles s) q))
                                          (uniq (conflicts_of s)) \<rparr>) (mergeState s) \<rparr>"
    and "map_of (stagedFiles (snd (gitAdd args s))) p =
           (if p \<in> set (add_targets s args) \<and> hasOwn (workingFiles s) p
              then Some (map_of (workingFiles s) p)
            else if p \<in> set (add_targets s args) \<and> hasOwn (getHeadSnapshot s) p then Some None
            else map_of (stagedFiles s) p)"
proof -
  obtain stg confl added errors where
    f: "fold (add_step s) (add_targets s args) (stagedFiles s, uniq (conflicts_of s), [], [])
          = (stg, confl, added, errors)"
    by (cases "fold (add_step s) (add_targets s args) (stagedFiles s, uniq (conflicts_of s), [], [])")
  have c: "confl = filter (\<lambda>q. \<not> (q \<in> set (add_targets s args) \<and> hasOwn (workingFiles s) q))
                     (uniq (conflicts_of s))"
    using fold_add_step_conflicts [of s "add_targets s args" "(stagedFiles s, uniq (conflicts_of s), [], [])"]
    by (simp add: f)
  have m: "map_of stg p =
           (if p \<in> set (add_targets s args) \<and> hasOwn (workingFiles s) p
              then Some (map_of (workingFiles s) p)
            else if p \<in> set (add_targets s args) \<and> hasOwn (getHeadSnapshot s) p then Some None
            else map_of (stagedFiles s) p)"
    using map_of_fold_add_step [of s "add_targets s args" "(stagedFiles s, uniq (conflicts_of s), [], [])" p]
    by (simp add: f)
  have e: "errors \<noteq> []"
  proof (rule ccontr)
    assume "\<not> errors \<noteq> []"
    with assms(1,2) have "ok (fst (gitAdd args s))"
      by (simp add: gitAdd_def f Let_def success_def split: option.splits)
    with assms(3) show False by simp
  qed
  have st: "snd (gitAdd args s) = s\<lparr> stagedFiles := stg,
              mergeState := map_option (\<lambda>m. m\<lparr> conflicts := confl \<rparr>) (mergeState s) \<rparr>"
    using assms(1,2) e by (cases "mergeState s") (simp_all add: gitAdd_def f Let_def)
  then have sf: "stagedFiles (snd (gitAdd args s)) = stg"
    by simp
  show "snd (gitAdd args s) =
           s\<lparr> stagedFiles := stagedFiles (snd (gitAdd args s)),
              mergeState := map_option
                (\<lambda>m. m\<lparr> conflicts := filter (\<lambda>q. \<not> (q \<in> set (add_targets s args)
                                                       \<and> hasOwn (workingFiles s) q))
                                          (uniq (conflicts_of s)) \<rparr>) (mergeState s) \<rparr>"
    unfolding sf using st c by simp
  show "map_of (stagedFiles (snd (gitAdd args s))) p =
           (if p \<in> set (add_targets s args) \<and> hasOwn (workingFiles s) p
              then Some (map_of (workingFiles s) p)
            else if p \<in> set (add_targets s args) \<and> hasOwn (getHeadSnapshot s) p then Some None
            else map_of (stagedFiles s) p)"
    unfolding sf by (rule m)
qed

lemma gitAdd_guard: "\<not> initialized s \<or> args = [] \<Longrightarrow> snd (gitAdd args s) = s"
  by (auto simp: gitAdd_def)

text \<open>A commit that fails on an initialized repository without conflicts found the index empty.\<close>

lemma gitCommit_fail_index:
  assumes "initialized s" and "conflicts_of s = []" and "\<not> ok (fst (gitCommit args e s))"
  shows "stagedFiles s = []"
  using assms gitCommit_success(1) [of s args e] by blast

text \<open>
  The ways through \<^verbatim>\<open>gitMerge\<close>: it returns with the repository as it was; or it
  fast-forwards; or the histories diverged, and the three-way loop found a conflict, or it
  found none and \<^verbatim>\<open>gitCommit\<close> is called on the merged tree, staged.
\<close>

lemma merge_theirs_eq:
  "hasOwn (branches s) (the (arg args 0)) \<Longrightarrow>
     merge_theirs args s = the (map_of (branches s) (the (arg args 0)))"
  by (auto simp: merge_theirs_def hasOwn_def)

lemma gitMerge_stopped:
  assumes "diverged_merge args s"
    and "snd (three_way s (head s) (merge_theirs args s) (the (arg args 0))) \<noteq> []"
  shows "\<not> ok (fst (gitMerge args e s))" and "snd (gitMerge args e s) = merge_stopped args s"
proof -
  from assms(1) have d: "initialized s" "\<not> isDirty (getStatus s)" "truthy (arg args 0)"
    "hasOwn (branches s) (the (arg args 0))" "truthy (merge_theirs args s)" "truthy (head s)"
    "\<not> isAncestor s (head s) (merge_theirs args s)" "\<not> isAncestor s (merge_theirs args s) (head s)"
    by (simp_all add: diverged_merge_def)
  note t = merge_theirs_eq [OF d(4)]
  show "\<not> ok (fst (gitMerge args e s))"
    using d assms(2) unfolding t by (simp add: gitMerge_def Let_def)
  show "snd (gitMerge args e s) = merge_stopped args s"
    using d assms(2) unfolding merge_stopped_def t by (simp add: gitMerge_def Let_def)
qed

lemma gitMerge_commits:
  assumes "diverged_merge args s"
    and "snd (three_way s (head s) (merge_theirs args s) (the (arg args 0))) = []"
  obtains s3 where "initialized s3" and "conflicts_of s3 = []"
    and "commits s3 = commits s" and "commitOrder s3 = commitOrder s"
    and "s3\<lparr> lastEvent := Some (Git_merge (the (arg args 0))) \<rparr>
           = (merge_stopped args s)\<lparr> stagedFiles := stagedFiles s3 \<rparr>"
    and "ok (fst (gitMerge args e s))
           = ok (fst (gitCommit [''-m'', ''Merge branch '' @ quoted (the (arg args 0))] e s3))"
    and "snd (gitMerge args e s)
           = (snd (gitCommit [''-m'', ''Merge branch '' @ quoted (the (arg args 0))] e s3))
               \<lparr> lastEvent := Some (Git_merge (the (arg args 0))) \<rparr>"
proof -
  from assms(1) have d: "initialized s" "\<not> isDirty (getStatus s)" "truthy (arg args 0)"
    "hasOwn (branches s) (the (arg args 0))" "truthy (merge_theirs args s)" "truthy (head s)"
    "\<not> isAncestor s (head s) (merge_theirs args s)" "\<not> isAncestor s (merge_theirs args s) (head s)"
    by (simp_all add: diverged_merge_def)
  note t = merge_theirs_eq [OF d(4)]
  define b where "b = the (arg args 0)"
  define theirs where "theirs = the (map_of (branches s) b)"
  define s3 where "s3 = s\<lparr> workingFiles := fst (three_way s (head s) theirs b),
                 mergeState := Some \<lparr> theirBranch = b, theirHash = theirs, conflicts = [] \<rparr>,
                 stagedFiles := stage_deletions (map fst (getSnapshot s (head s)))
                                  (fst (three_way s (head s) theirs b))
                                  (stage_all (fst (three_way s (head s) theirs b)) []) \<rparr>"
  have c: "snd (three_way s (head s) theirs b) = []"
    using assms(2) by (simp add: t b_def theirs_def)
  have "initialized s3" and "conflicts_of s3 = []"
    and "commits s3 = commits s" and "commitOrder s3 = commitOrder s"
    by (simp_all add: s3_def d(1) conflicts_of_def)
  moreover have "s3\<lparr> lastEvent := Some (Git_merge b) \<rparr>
           = (merge_stopped args s)\<lparr> stagedFiles := stagedFiles s3 \<rparr>"
    using c by (simp add: s3_def merge_stopped_def t Let_def b_def [symmetric] theirs_def [symmetric])
  moreover have "ok (fst (gitMerge args e s))
           = ok (fst (gitCommit [''-m'', ''Merge branch '' @ quoted b] e s3))"
    using d c unfolding t b_def [symmetric] theirs_def [symmetric]
    by (simp add: gitMerge_def Let_def s3_def b_def [symmetric] theirs_def [symmetric])
  moreover have "snd (gitMerge args e s)
           = (snd (gitCommit [''-m'', ''Merge branch '' @ quoted b] e s3))
               \<lparr> lastEvent := Some (Git_merge b) \<rparr>"
    using d c unfolding t b_def [symmetric] theirs_def [symmetric]
    by (simp add: gitMerge_def Let_def s3_def b_def [symmetric] theirs_def [symmetric])
  ultimately show ?thesis
    unfolding b_def by (rule that)
qed

lemma gitMerge_not_diverged:
  assumes "\<not> diverged_merge args s"
  shows "snd (gitMerge args e s) = s
         \<or> ok (fst (gitMerge args e s))
           \<and> commits (snd (gitMerge args e s)) = commits s
           \<and> commitOrder (snd (gitMerge args e s)) = commitOrder s"
proof (cases "initialized s \<and> \<not> isDirty (getStatus s) \<and> truthy (arg args 0)
              \<and> hasOwn (branches s) (the (arg args 0))")
  case False
  then have "snd (gitMerge args e s) = s"
    by (auto simp: gitMerge_def Let_def)
  then show ?thesis ..
next
  case True
  then have d: "initialized s" "\<not> isDirty (getStatus s)" "truthy (arg args 0)"
    "hasOwn (branches s) (the (arg args 0))"
    by simp_all
  note t = merge_theirs_eq [OF d(4)]
  define b where "b = the (arg args 0)"
  define theirs where "theirs = the (map_of (branches s) b)"
  have m: "map_of (branches s) b = Some theirs"
    using d(4) by (auto simp: hasOwn_def b_def theirs_def)
  have b: "the (arg args 0) = b" and h: "hasOwn (branches s) b"
    using d(4) by (simp_all add: b_def)
  have mt: "merge_theirs args s = theirs"
    by (simp add: t theirs_def b_def)
  show ?thesis
  proof (cases "truthy theirs")
    case False
    with d m have "snd (gitMerge args e s) = s"
      by (simp add: gitMerge_def Let_def b_def [symmetric])
    then show ?thesis ..
  next
    case tt: True
    show ?thesis
    proof (cases "truthy (head s)")
      case False
      have "gitMerge args e s =
        (success [''Fast-forward (simulated).''],
         (set_head theirs s)\<lparr> workingFiles := getHeadSnapshot (set_head theirs s),
            lastEvent := Some (Git_merge_ff b) \<rparr>)"
        using d(1,2,3) b h m tt False by (rule gitMerge_unborn)
      then show ?thesis
        by (simp add: success_def set_head_def)
    next
      case th: True
      show ?thesis
      proof (cases "isAncestor s (head s) theirs")
        case True
        have "gitMerge args e s =
          (success [''Fast-forward (simulated).''],
           (set_head theirs s)\<lparr> workingFiles := getHeadSnapshot (set_head theirs s),
              lastEvent := Some (Git_merge_ff b) \<rparr>)"
          using d(1,2,3) b h m tt th True by (rule gitMerge_forward)
        then show ?thesis
          by (simp add: success_def set_head_def)
      next
        case False
        with assms d tt th have "isAncestor s theirs (head s)"
          by (simp add: diverged_merge_def mt)
        with d(1,2,3) b h m have "gitMerge args e s = (success [''Already up to date.''], s)"
          using False tt th by (rule gitMerge_up_to_date)
        then show ?thesis by simp
      qed
    qed
  qed
qed

text \<open>A merge that fails leaves the repository as it was, or as the three-way loop left it.\<close>

lemma gitMerge_fail:
  assumes "\<not> ok (fst (gitMerge args e s))"
  shows "snd (gitMerge args e s) = s
         \<or> diverged_merge args s \<and> snd (gitMerge args e s) = merge_stopped args s"
proof (cases "diverged_merge args s")
  case False
  with assms show ?thesis
    using gitMerge_not_diverged [of args s e] by blast
next
  case d: True
  show ?thesis
  proof (cases "snd (three_way s (head s) (merge_theirs args s) (the (arg args 0))) = []")
    case False
    with d show ?thesis
      by (simp add: gitMerge_stopped)
  next
    case True
    from d True obtain s3 where s3: "initialized s3" "conflicts_of s3 = []"
      and st: "s3\<lparr> lastEvent := Some (Git_merge (the (arg args 0))) \<rparr>
           = (merge_stopped args s)\<lparr> stagedFiles := stagedFiles s3 \<rparr>"
      and ok: "ok (fst (gitMerge args e s))
           = ok (fst (gitCommit [''-m'', ''Merge branch '' @ quoted (the (arg args 0))] e s3))"
      and res: "snd (gitMerge args e s)
           = (snd (gitCommit [''-m'', ''Merge branch '' @ quoted (the (arg args 0))] e s3))
               \<lparr> lastEvent := Some (Git_merge (the (arg args 0))) \<rparr>"
      by (rule gitMerge_commits [where e = e]) blast
    from assms ok have f: "\<not> ok (fst (gitCommit [''-m'', ''Merge branch '' @ quoted (the (arg args 0))] e s3))"
      by simp
    have e: "stagedFiles s3 = []"
      using s3 f by (rule gitCommit_fail_index)
    have "stagedFiles (merge_stopped args s) = []"
      by (simp add: merge_stopped_def Let_def)
    then have "(merge_stopped args s)\<lparr> stagedFiles := stagedFiles s3 \<rparr> = merge_stopped args s"
      by (simp add: e)
    moreover have "snd (gitCommit [''-m'', ''Merge branch '' @ quoted (the (arg args 0))] e s3) = s3"
      using f by (rule gitCommit_fail)
    ultimately have "snd (gitMerge args e s) = merge_stopped args s"
      using res st by (simp only:)
    with d show ?thesis by simp
  qed
qed

text \<open>A revert that fails leaves the repository as it was, or with the index it built for
  its commit, when \<^verbatim>\<open>gitCommit\<close> refused that index.\<close>

lemma gitRevert_fail:
  assumes "\<not> ok (fst (gitRevert args e s))"
  shows "snd (gitRevert args e s) = s
         \<or> (\<exists>h c. map_of (commits s) h = Some c
               \<and> (revert_index s c = [] \<or> conflicts_of s \<noteq> [])
               \<and> snd (gitRevert args e s)
                    = s\<lparr> stagedFiles := revert_index s c, lastEvent := Some (Git_revert h) \<rparr>)"
proof (cases "initialized s \<and> truthy (arg args 0)")
  case False
  then have "snd (gitRevert args e s) = s"
    by (auto simp: gitRevert_def)
  then show ?thesis ..
next
  case True
  then have i: "initialized s" "truthy (arg args 0)"
    by simp_all
  let ?full = "or_else (resolveHashPrefix s (the (arg args 0)))
                     (if hasOwn (commits s) (the (arg args 0)) then Some (the (arg args 0)) else None)"
  show ?thesis
  proof (cases "if truthy ?full then map_of (commits s) (the ?full) else None")
    case None
    with i have "snd (gitRevert args e s) = s"
      by (simp add: gitRevert_def Let_def)
    then show ?thesis ..
  next
    case (Some c)
    then have c: "map_of (commits s) (the ?full) = Some c"
      by (simp split: if_splits)
    define s1 where "s1 = s\<lparr> stagedFiles := revert_index s c \<rparr>"
    define rc where "rc = gitCommit [''-m'', ''Revert '' @ [CHR 0x22] @ message c @ [CHR 0x22]] e s1"
    have r: "ok (fst (gitRevert args e s)) = ok (fst rc)"
      and st: "snd (gitRevert args e s) = (snd rc)\<lparr> lastEvent := Some (Git_revert (the ?full)) \<rparr>"
      using i Some
      by (simp_all add: gitRevert_def Let_def s1_def rc_def)
    from assms r have f: "\<not> ok (fst rc)"
      by simp
    then have "snd rc = s1"
      unfolding rc_def by (rule gitCommit_fail)
    with st have 1: "snd (gitRevert args e s)
                    = s\<lparr> stagedFiles := revert_index s c, lastEvent := Some (Git_revert (the ?full)) \<rparr>"
      by (simp add: s1_def)
    have "revert_index s c = [] \<or> conflicts_of s \<noteq> []"
    proof (rule ccontr)
      assume "\<not> (revert_index s c = [] \<or> conflicts_of s \<noteq> [])"
      then have "stagedFiles s1 \<noteq> []" and "conflicts_of s1 = []" and "initialized s1"
        by (simp_all add: s1_def conflicts_of_def i)
      then have "ok (fst rc)"
        unfolding rc_def using gitCommit_success(1) by blast
      with f show False by simp
    qed
    with c 1 show ?thesis by blast
  qed
qed

text \<open>
  A pull that fails leaves the repository as it was, unless it went as far as the merge of
  histories that diverged: then the commits of the remote are imported, and the repository
  is what the failing \<^verbatim>\<open>gitMerge\<close> left, without the temporary branch.
\<close>

lemma gitPull_fail:
  assumes "\<not> ok (fst (gitPull args store e s))"
  shows "snd (gitPull args store e s) = s
         \<or> (\<exists>u rr x. map_of (remotes s) (pull_remoteName args s) = Some u
               \<and> getRepo store u = Some rr
               \<and> (x = pull_merge_state args rr s
                    \<or> x = merge_stopped [pull_tmpName args s] (pull_merge_state args rr s))
               \<and> snd (gitPull args store e s)
                    = x\<lparr> branches := AList.delete (pull_tmpName args s) (branches x),
                         lastEvent := Some (Git_pull_merge (pull_remoteName args s)
                                                           (pull_branchName args s)) \<rparr>)"
proof (cases "initialized s \<and> \<not> isDirty (getStatus s)")
  case False
  then have "snd (gitPull args store e s) = s"
    by (auto simp: gitPull_def)
  then show ?thesis ..
next
  case True
  then have i: "initialized s" "\<not> isDirty (getStatus s)"
    by simp_all
  show ?thesis
  proof (cases "map_of (remotes s) (pull_remoteName args s)")
    case None
    with i have "snd (gitPull args store e s) = s"
      by (simp add: gitPull_def Let_def)
    then show ?thesis ..
  next
    case u: (Some u)
    show ?thesis
    proof (cases "getRepo store u")
      case None
      with i u have "snd (gitPull args store e s) = s"
        by (simp add: gitPull_def Let_def)
      then show ?thesis ..
    next
      case rr: (Some rr)
      define remoteHead where
        "remoteHead = (case map_of (r_branches rr) (pull_branchName args s) of None \<Rightarrow> None | Some h \<Rightarrow> h)"
      show ?thesis
      proof (cases "truthy remoteHead")
        case False
        with i u rr have "snd (gitPull args store e s) = s"
          by (simp add: gitPull_def Let_def remoteHead_def [symmetric])
        then show ?thesis ..
      next
        case t: True
        define s1 where "s1 = pull_import rr s"
        show ?thesis
        proof (cases "\<not> truthy (head s1) \<or> isAncestor s1 (head s1) remoteHead")
          case True
          with i u rr t have "ok (fst (gitPull args store e s))"
            by (simp add: gitPull_def Let_def remoteHead_def [symmetric] s1_def [symmetric] success_def)
          with assms show ?thesis by simp
        next
          case nf: False
          show ?thesis
          proof (cases "isAncestor s1 remoteHead (head s1)")
            case True
            with i u rr t nf have "ok (fst (gitPull args store e s))"
              by (simp add: gitPull_def Let_def remoteHead_def [symmetric] s1_def [symmetric] success_def)
            with assms show ?thesis by simp
          next
            case na: False
            define s2 where "s2 = pull_merge_state args rr s"
            define rc where "rc = gitMerge [pull_tmpName args s] e s2"
            have r: "ok (fst (gitPull args store e s)) = ok (fst rc)"
              and st: "snd (gitPull args store e s)
                         = (snd rc)\<lparr> branches := AList.delete (pull_tmpName args s) (branches (snd rc)),
                                     lastEvent := Some (Git_pull_merge (pull_remoteName args s)
                                                                       (pull_branchName args s)) \<rparr>"
              using i u rr t nf na
              by (simp_all add: gitPull_def Let_def remoteHead_def [symmetric] s1_def [symmetric]
                  s2_def [symmetric] rc_def [symmetric])
            from assms r have "\<not> ok (fst rc)"
              by simp
            then have "snd rc = s2 \<or> snd rc = merge_stopped [pull_tmpName args s] s2"
              unfolding rc_def using gitMerge_fail by blast
            with u rr st show ?thesis
              unfolding s2_def by blast
          qed
        qed
      qed
    qed
  qed
qed

text \<open>A push that throws in its copy loop leaves the commits copied so far in the remote.\<close>

lemma gitPush_throws:
  assumes "fst (gitPush args store s) = Inl SyntaxError"
  shows "\<exists>u store1 rr rc. map_of (remotes s) (push_remoteName args s) = Some u
           \<and> ensureRepo store u = Inr (store1, rr)
           \<and> push_commits (commits s) (commitOrder s) (r_commits rr) = Inl rc
           \<and> snd (snd (gitPush args store s)) = AList.update (trim u) (rr\<lparr> r_commits := rc \<rparr>) store1"
proof (cases "initialized s")
  case False
  with assms show ?thesis by (simp add: gitPush_def)
next
  case i: True
  show ?thesis
  proof (cases "map_of (remotes s) (push_remoteName args s)")
    case None
    with i assms show ?thesis by (simp add: gitPush_def Let_def)
  next
    case (Some u)
    show ?thesis
    proof (cases "ensureRepo store u")
      case (Inl err)
      then have "err \<noteq> SyntaxError"
        by (auto simp: ensureRepo_def Let_def split: if_splits option.splits)
      with i Some Inl assms show ?thesis by (simp add: gitPush_def Let_def)
    next
      case (Inr x)
      obtain store1 rr where x: "x = (store1, rr)" by (cases x)
      show ?thesis
      proof (cases "truthy (case map_of (branches s) (push_branchName args s) of
                              None \<Rightarrow> None | Some h \<Rightarrow> h)")
        case False
        with i Some Inr x assms show ?thesis by (simp add: gitPush_def Let_def)
      next
        case t: True
        show ?thesis
        proof (cases "push_commits (commits s) (commitOrder s) (r_commits rr)")
          case (Inl rc)
          with i Some Inr x t have "snd (snd (gitPush args store s))
              = AList.update (trim u) (rr\<lparr> r_commits := rc \<rparr>) store1"
            by (simp add: gitPush_def Let_def)
          with Some Inr x Inl show ?thesis by blast
        next
          case copied: (Inr rc)
          with i Some Inr x t assms show ?thesis
            by (simp add: gitPush_def Let_def)
        qed
      qed
    qed
  qed
qed

lemma runGit_sub:
  assumes "arg (splitArgs line) 1 = Some sub"
  shows "sub = ''merge'' \<Longrightarrow> runGit line store e s = lift store (gitMerge (drop 2 (splitArgs line)) e s)"
    and "sub = ''pull'' \<Longrightarrow> runGit line store e s = lift store (gitPull (drop 2 (splitArgs line)) store e s)"
    and "sub = ''revert'' \<Longrightarrow> runGit line store e s = lift store (gitRevert (drop 2 (splitArgs line)) e s)"
    and "sub = ''push'' \<Longrightarrow> runGit line store e s = gitPush (drop 2 (splitArgs line)) store s"
  using assms by (simp_all add: runGit_def truthy_def)

text \<open>Every command but \<^verbatim>\<open>push\<close> that fails leaves the remote store as it was.\<close>

lemma exec_fail_store:
  assumes "\<not> outcome_ok (fst (exec line store e s))" and "git_sub line \<noteq> Some ''push''"
  shows "snd (snd (exec line store e s)) = store"
proof (cases "prefix ''git '' line")
  case False
  then show ?thesis
    by (simp add: exec_def lift_def)
next
  case True
  then have x: "exec line store e s = runGit line store e s"
    and g: "git_sub line = arg (splitArgs line) 1"
    by (simp_all add: exec_def git_sub_def)
  show ?thesis
  proof (cases "arg (splitArgs line) 1 \<in> Some ` set [''add'', ''merge'', ''pull'', ''revert'']")
    case False
    with assms show ?thesis
      using runGit_fail [of line store e s] by (simp add: x g)
  next
    case True
    then consider "arg (splitArgs line) 1 = Some ''add''" | "arg (splitArgs line) 1 = Some ''merge''"
      | "arg (splitArgs line) 1 = Some ''pull''" | "arg (splitArgs line) 1 = Some ''revert''"
      by auto
    then show ?thesis
    proof cases
      case 1
      then show ?thesis by (simp add: x runGit_add lift_def)
    next
      case 2
      then show ?thesis by (simp add: x runGit_sub(1) lift_def)
    next
      case 3
      then show ?thesis by (simp add: x runGit_sub(2) lift_def)
    next
      case 4
      then show ?thesis by (simp add: x runGit_sub(3) lift_def)
    qed
  qed
qed

text \<open>
  Claim C3, as the code has it. No command rolls anything back, and \<^verbatim>\<open>App.exec\<close> catches
  nothing. A command that does not succeed (it returns a result that is not ok, or throws):

  \<^item> leaves the repository as it was, unless it is \<^verbatim>\<open>git add\<close>, \<^verbatim>\<open>merge\<close>, \<^verbatim>\<open>pull\<close> or
    \<^verbatim>\<open>revert\<close>;
  \<^item> leaves the remote store as it was, unless it is \<^verbatim>\<open>git push\<close>. A push leaves the store
    as it was, or with the empty remote added under the URL that was unknown, or, when it
    threw in its copy loop, with the commits copied before the exception in the remote;
  \<^item> \<^verbatim>\<open>git add\<close>: without a repository or without arguments, the repository is as it was.
    Else only the index and the conflict list of a pending merge changed: every target
    that is in the working tree is staged with its content and taken off the conflict
    list, every other target that is in the HEAD snapshot is staged as deleted, and the
    rest of the index is as it was, although another target did not match;
  \<^item> \<^verbatim>\<open>git merge\<close>: the repository is as it was, or the histories diverged and it is as the
    three-way loop left it: merged working tree, empty index, merge state set, whether
    there is a conflict or, without one, the merge commit found nothing to commit;
  \<^item> \<^verbatim>\<open>git pull\<close>: the repository is as it was, or the commits of the remote are imported
    and it is what the merge of the temporary branch found or left, without that branch;
  \<^item> \<^verbatim>\<open>git revert\<close>: the repository is as it was, or its index is replaced by the index
    of the revert, which \<^verbatim>\<open>gitCommit\<close> refused because it is empty or a merge has conflicts.
\<close>

theorem exec_failure:
  assumes "\<not> outcome_ok (fst (exec line store e s))"
  shows "(git_sub line \<notin> Some ` set [''add'', ''merge'', ''pull'', ''revert''] \<longrightarrow>
            fst (snd (exec line store e s)) = s)
       \<and> (git_sub line \<noteq> Some ''push'' \<longrightarrow> snd (snd (exec line store e s)) = store)
       \<and> (git_sub line = Some ''push'' \<longrightarrow>
            snd (snd (exec line store e s)) = store
            \<or> (\<exists>u. map_of (remotes s) (push_remoteName (drop 2 (splitArgs line)) s) = Some u
                  \<and> map_of store (trim u) = None
                  \<and> snd (snd (exec line store e s))
                       = AList.update (trim u) (createEmptyRemote (trim u)) store)
            \<or> (\<exists>u store1 rr rc.
                  fst (exec line store e s) = Inl SyntaxError
                  \<and> map_of (remotes s) (push_remoteName (drop 2 (splitArgs line)) s) = Some u
                  \<and> ensureRepo store u = Inr (store1, rr)
                  \<and> push_commits (commits s) (commitOrder s) (r_commits rr) = Inl rc
                  \<and> snd (snd (exec line store e s))
                       = AList.update (trim u) (rr\<lparr> r_commits := rc \<rparr>) store1))
       \<and> (git_sub line = Some ''add'' \<longrightarrow>
            (\<not> initialized s \<or> drop 2 (splitArgs line) = [] \<longrightarrow> fst (snd (exec line store e s)) = s)
            \<and> (initialized s \<and> drop 2 (splitArgs line) \<noteq> [] \<longrightarrow>
                 fst (snd (exec line store e s)) =
                   s\<lparr> stagedFiles := stagedFiles (fst (snd (exec line store e s))),
                      mergeState := map_option
                        (\<lambda>m. m\<lparr> conflicts :=
                                  filter (\<lambda>q. \<not> (q \<in> set (add_targets s (drop 2 (splitArgs line)))
                                                 \<and> hasOwn (workingFiles s) q))
                                         (uniq (conflicts_of s)) \<rparr>) (mergeState s) \<rparr>
                 \<and> (\<forall>p. map_of (stagedFiles (fst (snd (exec line store e s)))) p =
                          (if p \<in> set (add_targets s (drop 2 (splitArgs line))) \<and> hasOwn (workingFiles s) p
                             then Some (map_of (workingFiles s) p)
                           else if p \<in> set (add_targets s (drop 2 (splitArgs line)))
                                   \<and> hasOwn (getHeadSnapshot s) p then Some None
                           else map_of (stagedFiles s) p))))
       \<and> (git_sub line = Some ''merge'' \<longrightarrow>
            fst (snd (exec line store e s)) = s
            \<or> diverged_merge (drop 2 (splitArgs line)) s
              \<and> fst (snd (exec line store e s)) = merge_stopped (drop 2 (splitArgs line)) s)
       \<and> (git_sub line = Some ''pull'' \<longrightarrow>
            fst (snd (exec line store e s)) = s
            \<or> (\<exists>u rr x. map_of (remotes s) (pull_remoteName (drop 2 (splitArgs line)) s) = Some u
                  \<and> getRepo store u = Some rr
                  \<and> (x = pull_merge_state (drop 2 (splitArgs line)) rr s
                       \<or> x = merge_stopped [pull_tmpName (drop 2 (splitArgs line)) s]
                                (pull_merge_state (drop 2 (splitArgs line)) rr s))
                  \<and> fst (snd (exec line store e s))
                       = x\<lparr> branches := AList.delete (pull_tmpName (drop 2 (splitArgs line)) s) (branches x),
                            lastEvent := Some (Git_pull_merge (pull_remoteName (drop 2 (splitArgs line)) s)
                                                              (pull_branchName (drop 2 (splitArgs line)) s)) \<rparr>))
       \<and> (git_sub line = Some ''revert'' \<longrightarrow>
            fst (snd (exec line store e s)) = s
            \<or> (\<exists>h c. map_of (commits s) h = Some c
                  \<and> (revert_index s c = [] \<or> conflicts_of s \<noteq> [])
                  \<and> fst (snd (exec line store e s))
                       = s\<lparr> stagedFiles := revert_index s c, lastEvent := Some (Git_revert h) \<rparr>))"
proof (cases "prefix ''git '' line")
  case False
  then have "exec line store e s = lift store (runShell line s)" and "git_sub line = None"
    by (simp_all add: exec_def git_sub_def)
  with assms show ?thesis
    by (simp add: lift_def outcome_ok_def runShell_fail)
next
  case True
  then have x: "exec line store e s = runGit line store e s"
    and g: "git_sub line = arg (splitArgs line) 1"
    by (simp_all add: exec_def git_sub_def)
  let ?rest = "drop 2 (splitArgs line)"
  have 1: "fst (snd (exec line store e s)) = s"
    if "git_sub line \<notin> Some ` set [''add'', ''merge'', ''pull'', ''revert'']"
    using runGit_fail [of line store e s] assms that by (simp add: x g)
  have 2: "snd (snd (exec line store e s)) = store" if "git_sub line \<noteq> Some ''push''"
    using assms that by (rule exec_fail_store)
  have 3: "snd (snd (exec line store e s)) = store
            \<or> (\<exists>u. map_of (remotes s) (push_remoteName ?rest s) = Some u
                  \<and> map_of store (trim u) = None
                  \<and> snd (snd (exec line store e s))
                       = AList.update (trim u) (createEmptyRemote (trim u)) store)
            \<or> (\<exists>u store1 rr rc.
                  fst (exec line store e s) = Inl SyntaxError
                  \<and> map_of (remotes s) (push_remoteName ?rest s) = Some u
                  \<and> ensureRepo store u = Inr (store1, rr)
                  \<and> push_commits (commits s) (commitOrder s) (r_commits rr) = Inl rc
                  \<and> snd (snd (exec line store e s))
                       = AList.update (trim u) (rr\<lparr> r_commits := rc \<rparr>) store1)"
    if "git_sub line = Some ''push''"
  proof -
    from that have r: "exec line store e s = gitPush ?rest store s"
      by (simp add: x g runGit_sub(4))
    show ?thesis
    proof (cases "fst (gitPush ?rest store s) = Inl SyntaxError")
      case True
      then show ?thesis
        unfolding r using gitPush_throws [of ?rest store s] by blast
    next
      case False
      with assms show ?thesis
        unfolding r using gitPush_fail_store [of ?rest store s] by blast
    qed
  qed
  have 4: "(\<not> initialized s \<or> ?rest = [] \<longrightarrow> fst (snd (exec line store e s)) = s)
            \<and> (initialized s \<and> ?rest \<noteq> [] \<longrightarrow>
                 fst (snd (exec line store e s)) =
                   s\<lparr> stagedFiles := stagedFiles (fst (snd (exec line store e s))),
                      mergeState := map_option
                        (\<lambda>m. m\<lparr> conflicts :=
                                  filter (\<lambda>q. \<not> (q \<in> set (add_targets s ?rest)
                                                 \<and> hasOwn (workingFiles s) q))
                                         (uniq (conflicts_of s)) \<rparr>) (mergeState s) \<rparr>
                 \<and> (\<forall>p. map_of (stagedFiles (fst (snd (exec line store e s)))) p =
                          (if p \<in> set (add_targets s ?rest) \<and> hasOwn (workingFiles s) p
                             then Some (map_of (workingFiles s) p)
                           else if p \<in> set (add_targets s ?rest)
                                   \<and> hasOwn (getHeadSnapshot s) p then Some None
                           else map_of (stagedFiles s) p)))"
    if "git_sub line = Some ''add''"
  proof -
    from that have r: "exec line store e s = lift store (gitAdd ?rest s)"
      by (simp add: x g runGit_add)
    then have st: "fst (snd (exec line store e s)) = snd (gitAdd ?rest s)"
      by (simp add: lift_def)
    from assms r have f: "\<not> ok (fst (gitAdd ?rest s))"
      by (simp add: lift_def outcome_ok_def)
    show ?thesis
      unfolding st
      using gitAdd_guard [of s ?rest] gitAdd_fail_state(1) [OF _ _ f] gitAdd_fail_state(2) [OF _ _ f]
      by blast
  qed
  have 5: "fst (snd (exec line store e s)) = s
            \<or> diverged_merge ?rest s \<and> fst (snd (exec line store e s)) = merge_stopped ?rest s"
    if "git_sub line = Some ''merge''"
  proof -
    from that have r: "exec line store e s = lift store (gitMerge ?rest e s)"
      by (simp add: x g runGit_sub(1))
    with assms have f: "\<not> ok (fst (gitMerge ?rest e s))"
      by (simp add: lift_def outcome_ok_def)
    show ?thesis
      using gitMerge_fail [OF f] by (simp add: r lift_def)
  qed
  have 6: "fst (snd (exec line store e s)) = s
            \<or> (\<exists>u rr x. map_of (remotes s) (pull_remoteName ?rest s) = Some u
                  \<and> getRepo store u = Some rr
                  \<and> (x = pull_merge_state ?rest rr s
                       \<or> x = merge_stopped [pull_tmpName ?rest s] (pull_merge_state ?rest rr s))
                  \<and> fst (snd (exec line store e s))
                       = x\<lparr> branches := AList.delete (pull_tmpName ?rest s) (branches x),
                            lastEvent := Some (Git_pull_merge (pull_remoteName ?rest s)
                                                              (pull_branchName ?rest s)) \<rparr>)"
    if "git_sub line = Some ''pull''"
  proof -
    from that have r: "exec line store e s = lift store (gitPull ?rest store e s)"
      by (simp add: x g runGit_sub(2))
    then have st: "fst (snd (exec line store e s)) = snd (gitPull ?rest store e s)"
      by (simp add: lift_def)
    from assms r have f: "\<not> ok (fst (gitPull ?rest store e s))"
      by (simp add: lift_def outcome_ok_def)
    show ?thesis
      unfolding st by (rule gitPull_fail [OF f])
  qed
  have 7: "fst (snd (exec line store e s)) = s
            \<or> (\<exists>h c. map_of (commits s) h = Some c
                  \<and> (revert_index s c = [] \<or> conflicts_of s \<noteq> [])
                  \<and> fst (snd (exec line store e s))
                       = s\<lparr> stagedFiles := revert_index s c, lastEvent := Some (Git_revert h) \<rparr>)"
    if "git_sub line = Some ''revert''"
  proof -
    from that have r: "exec line store e s = lift store (gitRevert ?rest e s)"
      by (simp add: x g runGit_sub(3))
    then have st: "fst (snd (exec line store e s)) = snd (gitRevert ?rest e s)"
      by (simp add: lift_def)
    from assms r have f: "\<not> ok (fst (gitRevert ?rest e s))"
      by (simp add: lift_def outcome_ok_def)
    show ?thesis
      unfolding st by (rule gitRevert_fail [OF f])
  qed
  show ?thesis
    apply (intro conjI)
    subgoal by (rule impI, erule 1)
    subgoal by (rule impI, erule 2)
    subgoal by (rule impI, erule 3)
    subgoal by (rule impI, erule 4)
    subgoal by (rule impI, erule 5)
    subgoal by (rule impI, erule 6)
    subgoal by (rule impI, erule 7)
    done
qed

lemma add_example:
  "\<not> outcome_ok (fst (exec ''git add f missing'' [] env1 one_file))"
  "outcome_exitCode (fst (exec ''git add f missing'' [] env1 one_file)) = Some 1"
  "git_sub ''git add f missing'' = Some ''add''"
  "add_targets one_file (drop 2 (splitArgs ''git add f missing'')) = [''/f'', ''/missing'']"
  "stagedFiles (fst (snd (exec ''git add f missing'' [] env1 one_file))) = [(''/f'', Some ''1'')]"
  by code_simp+

lemma commit_example:
  "\<not> outcome_ok (fst (exec ''git commit -m x'' [] env1 one_commit))"
  "git_sub ''git commit -m x'' = Some ''commit''"
  by code_simp+

lemma merge_example:
  "\<not> outcome_ok (fst (exec ''git merge feat'' [] env1 both_deleted))"
  "git_sub ''git merge feat'' = Some ''merge''"
  "drop 2 (splitArgs ''git merge feat'') = [''feat'']"
  "mergeState (fst (snd (exec ''git merge feat'' [] env1 both_deleted)))
     = Some \<lparr> theirBranch = ''feat'', theirHash = Some ''bbbbbbbbbbb2'', conflicts = [] \<rparr>"
  "mergeState both_deleted = None"
  by code_simp+

lemma add_example_targets:
  "drop 2 (splitArgs ''git add f missing'') = [''f'', ''missing'']"
  "hasOwn (workingFiles one_file) ''/f''"
  "map_of (workingFiles one_file) ''/f'' = Some ''1''"
  "initialized one_file"
  "add_targets one_file [''f'', ''missing''] = [''/f'', ''/missing'']"
  by code_simp+

theorem exec_failure_witness:
  "\<not> outcome_ok (fst (exec ''git commit -m x'' [] env1 one_commit))
   \<and> git_sub ''git commit -m x'' = Some ''commit''
   \<and> fst (snd (exec ''git commit -m x'' [] env1 one_commit)) = one_commit
   \<and> snd (snd (exec ''git commit -m x'' [] env1 one_commit)) = []
   \<and> \<not> outcome_ok (fst (exec ''git add f missing'' [] env1 one_file))
   \<and> git_sub ''git add f missing'' = Some ''add''
   \<and> initialized one_file \<and> drop 2 (splitArgs ''git add f missing'') \<noteq> []
   \<and> ''/f'' \<in> set (add_targets one_file (drop 2 (splitArgs ''git add f missing'')))
   \<and> hasOwn (workingFiles one_file) ''/f''
   \<and> map_of (stagedFiles (fst (snd (exec ''git add f missing'' [] env1 one_file)))) ''/f''
        = Some (Some ''1'')
   \<and> snd (snd (exec ''git add f missing'' [] env1 one_file)) = []
   \<and> \<not> outcome_ok (fst (exec ''git merge feat'' [] env1 both_deleted))
   \<and> git_sub ''git merge feat'' = Some ''merge''
   \<and> fst (snd (exec ''git merge feat'' [] env1 both_deleted)) \<noteq> both_deleted
   \<and> diverged_merge [''feat''] both_deleted
   \<and> fst (snd (exec ''git merge feat'' [] env1 both_deleted)) = merge_stopped [''feat''] both_deleted"
proof -
  note c = exec_failure [OF commit_example(1)]
  note a = exec_failure [OF add_example(1)]
  note m = exec_failure [OF merge_example(1)]
  have 1: "fst (snd (exec ''git commit -m x'' [] env1 one_commit)) = one_commit"
    and 2: "snd (snd (exec ''git commit -m x'' [] env1 one_commit)) = []"
    using c by (simp_all add: commit_example)
  have 3: "map_of (stagedFiles (fst (snd (exec ''git add f missing'' [] env1 one_file)))) ''/f''
        = Some (Some ''1'')"
    and 4: "snd (snd (exec ''git add f missing'' [] env1 one_file)) = []"
    using a by (simp_all add: add_example add_example_targets)
  have n: "fst (snd (exec ''git merge feat'' [] env1 both_deleted)) \<noteq> both_deleted"
    using merge_example(4,5) by auto
  with m have 5: "diverged_merge [''feat''] both_deleted"
    and 6: "fst (snd (exec ''git merge feat'' [] env1 both_deleted)) = merge_stopped [''feat''] both_deleted"
    by (simp_all add: merge_example)
  show ?thesis
    using 1 2 3 4 5 6 n
    by (simp add: commit_example add_example add_example_targets merge_example)
qed

text \<open>
  Failures that leave more than the conflict of a merge behind. A merge of two branches that
  both deleted the only file has no conflict and nothing to commit: it fails, and the merge
  stays pending.
\<close>

lemma gitMerge_nothing_to_commit:
  "\<not> outcome_ok (fst (exec ''git merge feat'' [] env1 both_deleted))
   \<and> mergeState both_deleted = None
   \<and> mergeState (fst (snd (exec ''git merge feat'' [] env1 both_deleted)))
       = Some \<lparr> theirBranch = ''feat'', theirHash = Some ''bbbbbbbbbbb2'', conflicts = [] \<rparr>"
  by (simp add: merge_example)

text \<open>A revert while a merge has conflicts fails in \<^verbatim>\<open>gitCommit\<close>, after it replaced the
  index.\<close>

lemma gitRevert_replaces_index:
  "\<not> outcome_ok (fst (exec ''git revert ccccccc'' [] env2 conflicted))
   \<and> stagedFiles conflicted = []
   \<and> stagedFiles (fst (snd (exec ''git revert ccccccc'' [] env2 conflicted)))
       = [(''/config'', Some ''blue'')]"
  by code_simp

text \<open>A push from a repository whose \<^verbatim>\<open>commitOrder\<close> lists a hash that is no commit throws,
  after it copied the commit listed before that hash into the remote.\<close>

lemma gitPush_throws_after_copy:
  "fst (exec ''git push origin main'' empty_store env1 dangling_order) = Inl SyntaxError
   \<and> map_option r_commits (getRepo empty_store ''https://x.io/r.git'') = Some []
   \<and> map_option r_commits
        (getRepo (snd (snd (exec ''git push origin main'' empty_store env1 dangling_order)))
           ''https://x.io/r.git'')
       = Some [(''aaaaaaaaaaa1'', commit_a)]"
  by code_simp

text \<open>A pull of a history that diverged, with a conflict: it fails, and the commit of the
  remote stays imported, the merge pending.\<close>

lemma gitPull_imports_then_fails:
  "\<not> outcome_ok (fst (exec ''git pull origin main'' green_store env1 local_red))
   \<and> commitOrder local_red = [''aaaaaaaaaaa1'', ''ccccccccccc3'']
   \<and> commitOrder (fst (snd (exec ''git pull origin main'' green_store env1 local_red)))
       = [''aaaaaaaaaaa1'', ''ccccccccccc3'', ''bbbbbbbbbbb2'']
   \<and> map_option conflicts (mergeState (fst (snd (exec ''git pull origin main'' green_store env1 local_red))))
       = Some [''/config'']"
  by code_simp

text \<open>
  A \<^verbatim>\<open>git add\<close> with two pathspecs, of which the second matches no file, fails with exit
  code 1 and has staged the first.
\<close>

theorem gitAdd_partial:
  "outcome_exitCode (fst (exec ''git add f missing'' [] env1 one_file)) = Some 1
   \<and> \<not> outcome_ok (fst (exec ''git add f missing'' [] env1 one_file))
   \<and> stagedFiles one_file = []
   \<and> stagedFiles (fst (snd (exec ''git add f missing'' [] env1 one_file))) = [(''/f'', Some ''1'')]"
proof -
  have "stagedFiles one_file = []"
    by (simp add: one_file_def reset_def)
  then show ?thesis
    by (simp add: add_example)
qed

subsection \<open>Commits and their order\<close>

text \<open>
  Every commit of a new repository is listed in \<^verbatim>\<open>commitOrder\<close>, and the commands keep it
  so, in the repository and in the remotes of the store.
\<close>

lemma order_complete_reset: "order_complete reset"
  by (simp add: order_complete_def reset_def)

lemma store_complete_Nil: "store_complete []"
  by (simp add: store_complete_def)

lemma store_complete_update:
  assumes "store_complete store" and "set (map fst (r_commits rr)) = set (r_commitOrder rr)"
  shows "store_complete (AList.update k rr store)"
  using assms unfolding store_complete_def
  by (induction store) auto

lemma store_complete_lookup:
  assumes "store_complete store" and "map_of store k = Some rr"
  shows "set (map fst (r_commits rr)) = set (r_commitOrder rr)"
proof -
  from assms(2) have "(k, rr) \<in> set store"
    by (rule map_of_SomeD)
  with assms(1) show ?thesis
    unfolding store_complete_def list_all_iff by fastforce
qed

lemma ensureRepo_complete:
  assumes "store_complete store" and "ensureRepo store u = Inr (store1, rr)"
  shows "store_complete store1" and "set (map fst (r_commits rr)) = set (r_commitOrder rr)"
proof -
  have e: "set (map fst (r_commits (createEmptyRemote x))) = set (r_commitOrder (createEmptyRemote x))" for x
    by (simp add: createEmptyRemote_def)
  show "store_complete store1"
    using assms store_complete_update [OF assms(1) e]
    by (auto simp: ensureRepo_def Let_def split: if_splits option.splits)
  show "set (map fst (r_commits rr)) = set (r_commitOrder rr)"
    using assms e store_complete_lookup [OF assms(1)]
    by (auto simp: ensureRepo_def Let_def split: if_splits option.splits)
qed

lemma push_commits_total:
  "set hs \<subseteq> fst ` set local \<Longrightarrow> \<exists>rc. push_commits local hs rc0 = Inr rc"
proof (induction hs arbitrary: rc0)
  case Nil
  show ?case by simp
next
  case (Cons h hs)
  then have "hasOwn local h" and hs: "set hs \<subseteq> fst ` set local"
    by (simp_all add: hasOwn_iff)
  then obtain c where "map_of local h = Some c"
    by (auto simp: hasOwn_def)
  then show ?case
    using Cons.IH [OF hs] by simp
qed

lemma push_commits_dom:
  "push_commits local hs rc0 = Inr rc \<Longrightarrow> fst ` set rc = fst ` set rc0 \<union> set hs"
proof (induction hs arbitrary: rc0)
  case Nil
  then show ?case by simp
next
  case (Cons k hs)
  show ?case
  proof (cases "map_of rc0 k")
    case (Some c)
    then have "k \<in> fst ` set rc0"
      by (auto dest: map_of_SomeD intro: rev_image_eqI)
    moreover from Some Cons.prems have "push_commits local hs rc0 = Inr rc"
      by simp
    then have "fst ` set rc = fst ` set rc0 \<union> set hs"
      by (rule Cons.IH)
    ultimately show ?thesis by auto
  next
    case None
    with Cons.prems obtain c where c: "map_of local k = Some c"
      and r: "push_commits local hs (AList.update k c rc0) = Inr rc"
      by (auto split: option.splits)
    from r have "fst ` set rc = fst ` set (AList.update k c rc0) \<union> set hs"
      by (rule Cons.IH)
    then show ?thesis
      by (auto simp: dom_update)
  qed
qed

lemma gitPush_complete:
  assumes "order_complete s" and "store_complete store"
  shows "order_complete (fst (snd (gitPush args store s)))"
    and "store_complete (snd (snd (gitPush args store s)))"
proof -
  show "order_complete (fst (snd (gitPush args store s)))"
    using assms(1) gitPush_commits [of args store s] by (simp add: order_complete_def)
  show "store_complete (snd (snd (gitPush args store s)))"
  proof (cases "initialized s")
    case False
    with assms(2) show ?thesis by (simp add: gitPush_def)
  next
    case i: True
    show ?thesis
    proof (cases "map_of (remotes s) (push_remoteName args s)")
      case None
      with i assms(2) show ?thesis by (simp add: gitPush_def Let_def)
    next
      case (Some u)
      show ?thesis
      proof (cases "ensureRepo store u")
        case (Inl err)
        with i Some assms(2) show ?thesis by (simp add: gitPush_def Let_def)
      next
        case (Inr x)
        obtain store1 rr where x: "x = (store1, rr)" by (cases x)
        note c = ensureRepo_complete [OF assms(2) Inr [unfolded x]]
        show ?thesis
        proof (cases "truthy (case map_of (branches s) (push_branchName args s) of
                                None \<Rightarrow> None | Some h \<Rightarrow> h)")
          case False
          with i Some Inr x c(1) show ?thesis by (simp add: gitPush_def Let_def)
        next
          case t: True
          from assms(1) have "set (commitOrder s) \<subseteq> fst ` set (commits s)"
            by (simp add: order_complete_def)
          then obtain rc where rc: "push_commits (commits s) (commitOrder s) (r_commits rr) = Inr rc"
            using push_commits_total by blast
          have "fst ` set rc = fst ` set (r_commits rr) \<union> set (commitOrder s)"
            using rc by (rule push_commits_dom)
          then have "set (map fst rc)
                     = set (r_commitOrder rr @ filter (\<lambda>h. h \<notin> set (r_commitOrder rr)) (commitOrder s))"
            using c(2) by auto
          then have "store_complete (AList.update (trim u)
             (rr\<lparr> r_commits := rc,
                 r_commitOrder := r_commitOrder rr @ filter (\<lambda>h. h \<notin> set (r_commitOrder rr)) (commitOrder s),
                 r_branches := AList.update (push_branchName args s)
                    (case map_of (branches s) (push_branchName args s) of None \<Rightarrow> None | Some h \<Rightarrow> h)
                    (r_branches rr) \<rparr>) store1)"
            by (intro store_complete_update c(1)) simp
          with i Some Inr x t rc show ?thesis
            by (simp add: gitPush_def Let_def)
        qed
      qed
    qed
  qed
qed

lemma gitInit_complete: "order_complete (snd (gitInit s)) = order_complete s"
  by (simp add: gitInit_def Let_def order_complete_def)

lemma gitStatus_complete: "order_complete (snd (gitStatus s)) = order_complete s"
  by (simp add: gitStatus_def Let_def order_complete_def split: if_splits)

lemma gitAdd_complete: "order_complete (snd (gitAdd args s)) = order_complete s"
  by (simp add: gitAdd_def Let_def order_complete_def split: prod.splits option.splits)

lemma gitLog_complete: "order_complete (snd (gitLog args e s)) = order_complete s"
  by (simp add: gitLog_def Let_def order_complete_def split: if_splits)

lemma gitBranch_complete: "order_complete (snd (gitBranch args s)) = order_complete s"
  by (simp add: gitBranch_def Let_def order_complete_def ensureBranchMeta_def split: option.splits)

lemma gitCheckout_complete: "order_complete (snd (gitCheckout args s)) = order_complete s"
  by (simp add: gitCheckout_def Let_def order_complete_def ensureBranchMeta_def split: option.splits)

lemma gitStash_complete: "order_complete (snd (gitStash args e s)) = order_complete s"
  by (simp add: gitStash_def Let_def order_complete_def split: list.splits)

lemma gitReset_complete: "order_complete (snd (gitReset args s)) = order_complete s"
  by (simp add: gitReset_def Let_def order_complete_def set_head_def split: sum.splits)

lemma runShell_complete: "order_complete (snd (runShell line s)) = order_complete s"
  by (simp add: runShell_def Let_def order_complete_def split: option.splits prod.splits)

lemma gitCommit_complete:
  assumes "order_complete s"
  shows "order_complete (snd (gitCommit args e s))"
proof (cases "initialized s \<and> stagedFiles s \<noteq> [] \<and> conflicts_of s = []")
  case True
  then have i: "initialized s" "stagedFiles s \<noteq> []" "conflicts_of s = []"
    by simp_all
  define c where "c = the (map_of (commits (snd (gitCommit args e s))) (genHash e))"
  have o: "commitOrder (snd (gitCommit args e s)) = commitOrder s @ [genHash e]"
    using i by (rule gitCommit_success(8))
  have eq: "commits (snd (gitCommit args e s)) = AList.update (genHash e) c (commits s)"
    unfolding c_def using i by (rule gitCommit_success(12))
  have "fst ` set (commits (snd (gitCommit args e s))) = {genHash e} \<union> fst ` set (commits s)"
    unfolding eq by (rule dom_update)
  moreover from assms have "fst ` set (commits s) = set (commitOrder s)"
    by (simp add: order_complete_def)
  ultimately have "fst ` set (commits (snd (gitCommit args e s)))
                   = set (commitOrder (snd (gitCommit args e s)))"
    unfolding o by simp
  then show ?thesis
    by (simp add: order_complete_def)
next
  case False
  then consider "\<not> initialized s" | "initialized s" "stagedFiles s = []"
    | "initialized s" "stagedFiles s \<noteq> []" "conflicts_of s \<noteq> []"
    by blast
  then have "snd (gitCommit args e s) = s"
  proof cases
    case 1
    then show ?thesis by (simp add: gitCommit_def)
  next
    case 2
    then show ?thesis by (simp add: gitCommit_nothing)
  next
    case 3
    then show ?thesis by (simp add: gitCommit_unmerged)
  qed
  with assms show ?thesis by simp
qed

lemma gitMerge_complete:
  assumes "order_complete s"
  shows "order_complete (snd (gitMerge args e s))"
proof (cases "diverged_merge args s")
  case False
  then consider (same) "snd (gitMerge args e s) = s"
    | (forward) "commits (snd (gitMerge args e s)) = commits s"
        "commitOrder (snd (gitMerge args e s)) = commitOrder s"
    using gitMerge_not_diverged [of args s e] by blast
  then show ?thesis
  proof cases
    case same
    with assms show ?thesis by simp
  next
    case forward
    with assms show ?thesis by (simp add: order_complete_def)
  qed
next
  case d: True
  show ?thesis
  proof (cases "snd (three_way s (head s) (merge_theirs args s) (the (arg args 0))) = []")
    case False
    with d have "snd (gitMerge args e s) = merge_stopped args s"
      by (rule gitMerge_stopped(2))
    with assms show ?thesis
      by (simp add: order_complete_def merge_stopped_def Let_def)
  next
    case True
    from d True obtain s3 where c: "commits s3 = commits s" "commitOrder s3 = commitOrder s"
      and res: "snd (gitMerge args e s)
           = (snd (gitCommit [''-m'', ''Merge branch '' @ quoted (the (arg args 0))] e s3))
               \<lparr> lastEvent := Some (Git_merge (the (arg args 0))) \<rparr>"
      by (rule gitMerge_commits [where e = e]) blast
    from assms c have "order_complete s3"
      by (simp add: order_complete_def)
    then have "order_complete (snd (gitCommit [''-m'', ''Merge branch '' @ quoted (the (arg args 0))] e s3))"
      by (rule gitCommit_complete)
    then show ?thesis
      unfolding res by (simp add: order_complete_def)
  qed
qed

lemma gitRevert_complete:
  assumes "order_complete s"
  shows "order_complete (snd (gitRevert args e s))"
proof (cases "initialized s \<and> truthy (arg args 0)")
  case False
  then have "snd (gitRevert args e s) = s"
    by (auto simp: gitRevert_def)
  with assms show ?thesis by simp
next
  case True
  then have i: "initialized s" "truthy (arg args 0)"
    by simp_all
  let ?full = "or_else (resolveHashPrefix s (the (arg args 0)))
                     (if hasOwn (commits s) (the (arg args 0)) then Some (the (arg args 0)) else None)"
  show ?thesis
  proof (cases "if truthy ?full then map_of (commits s) (the ?full) else None")
    case None
    with i have "snd (gitRevert args e s) = s"
      by (simp add: gitRevert_def Let_def)
    with assms show ?thesis by simp
  next
    case (Some c)
    define s1 where "s1 = s\<lparr> stagedFiles := revert_index s c \<rparr>"
    define rc where "rc = gitCommit [''-m'', ''Revert '' @ [CHR 0x22] @ message c @ [CHR 0x22]] e s1"
    have st: "snd (gitRevert args e s) = (snd rc)\<lparr> lastEvent := Some (Git_revert (the ?full)) \<rparr>"
      using i Some
      by (simp add: gitRevert_def Let_def s1_def rc_def)
    from assms have "order_complete s1"
      by (simp add: order_complete_def s1_def)
    then have "order_complete (snd rc)"
      unfolding rc_def by (rule gitCommit_complete)
    then show ?thesis
      unfolding st by (simp add: order_complete_def)
  qed
qed

lemma fold_pull_step_complete:
  "fst ` set (fst acc) = set (snd acc) \<Longrightarrow>
     fst ` set (fst (fold (pull_step rr) hs acc)) = set (snd (fold (pull_step rr) hs acc))"
proof (induction hs arbitrary: acc)
  case Nil
  then show ?case by simp
next
  case (Cons h hs)
  have "fst ` set (fst (pull_step rr h acc)) = set (snd (pull_step rr h acc))"
    using Cons.prems by (auto simp: pull_step_def dom_update split: option.splits)
  then show ?case
    by (simp add: Cons.IH)
qed

lemma pull_import_complete:
  assumes "order_complete s"
  shows "order_complete (pull_import rr s)"
  using assms fold_pull_step_complete [of "(commits s, commitOrder s)" rr "r_commitOrder rr"]
  by (simp add: order_complete_def pull_import_def Let_def)

lemma gitPull_complete:
  assumes "order_complete s"
  shows "order_complete (snd (gitPull args store e s))"
proof (cases "initialized s \<and> \<not> isDirty (getStatus s)")
  case False
  then have "snd (gitPull args store e s) = s"
    by (auto simp: gitPull_def)
  with assms show ?thesis by simp
next
  case True
  then have i: "initialized s" "\<not> isDirty (getStatus s)"
    by simp_all
  show ?thesis
  proof (cases "map_of (remotes s) (pull_remoteName args s)")
    case None
    with i have "snd (gitPull args store e s) = s"
      by (simp add: gitPull_def Let_def)
    with assms show ?thesis by simp
  next
    case u: (Some u)
    show ?thesis
    proof (cases "getRepo store u")
      case None
      with i u have "snd (gitPull args store e s) = s"
        by (simp add: gitPull_def Let_def)
      with assms show ?thesis by simp
    next
      case rr: (Some rr)
      define remoteHead where
        "remoteHead = (case map_of (r_branches rr) (pull_branchName args s) of None \<Rightarrow> None | Some h \<Rightarrow> h)"
      show ?thesis
      proof (cases "truthy remoteHead")
        case False
        with i u rr have "snd (gitPull args store e s) = s"
          by (simp add: gitPull_def Let_def remoteHead_def [symmetric])
        with assms show ?thesis by simp
      next
        case t: True
        define s1 where "s1 = pull_import rr s"
        have c1: "order_complete s1"
          unfolding s1_def using assms by (rule pull_import_complete)
        show ?thesis
        proof (cases "\<not> truthy (head s1) \<or> isAncestor s1 (head s1) remoteHead")
          case True
          with i u rr t have "snd (gitPull args store e s)
              = (set_head remoteHead s1)\<lparr> workingFiles := getHeadSnapshot (set_head remoteHead s1),
                   lastEvent := Some (Git_pull_ff (pull_remoteName args s) (pull_branchName args s)) \<rparr>"
            by (simp add: gitPull_def Let_def remoteHead_def [symmetric] s1_def [symmetric])
          with c1 show ?thesis
            by (simp add: order_complete_def set_head_def)
        next
          case nf: False
          show ?thesis
          proof (cases "isAncestor s1 remoteHead (head s1)")
            case True
            with i u rr t nf have "snd (gitPull args store e s) = s1"
              by (simp add: gitPull_def Let_def remoteHead_def [symmetric] s1_def [symmetric])
            with c1 show ?thesis by simp
          next
            case na: False
            define s2 where "s2 = pull_merge_state args rr s"
            define rc where "rc = gitMerge [pull_tmpName args s] e s2"
            have st: "snd (gitPull args store e s)
                         = (snd rc)\<lparr> branches := AList.delete (pull_tmpName args s) (branches (snd rc)),
                                     lastEvent := Some (Git_pull_merge (pull_remoteName args s)
                                                                       (pull_branchName args s)) \<rparr>"
              using i u rr t nf na
              by (simp add: gitPull_def Let_def remoteHead_def [symmetric] s1_def [symmetric]
                  s2_def [symmetric] rc_def [symmetric])
            from c1 have "order_complete s2"
              by (simp add: order_complete_def s2_def pull_merge_state_def Let_def s1_def)
            then have "order_complete (snd rc)"
              unfolding rc_def by (rule gitMerge_complete)
            then show ?thesis
              unfolding st by (simp add: order_complete_def)
          qed
        qed
      qed
    qed
  qed
qed

lemma gitClone_complete:
  assumes "order_complete s" and "store_complete store"
  shows "order_complete (fst (snd (gitClone args store s)))"
    and "store_complete (snd (snd (gitClone args store s)))"
proof -
  have "order_complete (fst (snd (gitClone args store s)))
        \<and> store_complete (snd (snd (gitClone args store s)))"
  proof (cases "truthy (arg args 0)")
    case False
    with assms show ?thesis by (simp add: gitClone_def)
  next
    case True
    show ?thesis
    proof (cases "ensureRepo store (the (arg args 0))")
      case (Inl err)
      with True assms show ?thesis by (simp add: gitClone_def Let_def)
    next
      case (Inr x)
      obtain store1 rr where x: "x = (store1, rr)" by (cases x)
      note c = ensureRepo_complete [OF assms(2) Inr [unfolded x]]
      from True Inr x have "commits (fst (snd (gitClone args store s))) = r_commits rr"
        and "commitOrder (fst (snd (gitClone args store s))) = r_commitOrder rr"
        and "snd (snd (gitClone args store s)) = store1"
        by (simp_all add: gitClone_def Let_def)
      with c show ?thesis
        by (simp add: order_complete_def)
    qed
  qed
  then show "order_complete (fst (snd (gitClone args store s)))"
    and "store_complete (snd (snd (gitClone args store s)))"
    by simp_all
qed

lemma gitRemote_complete:
  assumes "order_complete s" and "store_complete store"
  shows "order_complete (fst (snd (gitRemote args store s)))"
    and "store_complete (snd (snd (gitRemote args store s)))"
proof -
  have "commits (fst (snd (gitRemote args store s))) = commits s
        \<and> commitOrder (fst (snd (gitRemote args store s))) = commitOrder s"
    by (simp add: gitRemote_def Let_def split: sum.splits prod.splits)
  with assms(1) show "order_complete (fst (snd (gitRemote args store s)))"
    by (simp add: order_complete_def)
  show "store_complete (snd (snd (gitRemote args store s)))"
  proof (cases "ensureRepo store (the (arg args 2))")
    case (Inl err)
    with assms(2) show ?thesis
      by (simp add: gitRemote_def Let_def)
  next
    case (Inr x)
    obtain store1 rr where x: "x = (store1, rr)" by (cases x)
    note c = ensureRepo_complete(1) [OF assms(2) Inr [unfolded x]]
    with assms(2) Inr x show ?thesis
      by (simp add: gitRemote_def Let_def)
  qed
qed

text \<open>So every command keeps the repository and the store complete.\<close>

lemma runGit_complete:
  assumes "order_complete s" and "store_complete store"
  shows "order_complete (fst (snd (runGit line store e s)))
         \<and> store_complete (snd (snd (runGit line store e s)))"
proof (cases "truthy (arg (splitArgs line) 1)")
  case False
  with assms show ?thesis by (simp add: runGit_def)
next
  case True
  let ?sub = "the (arg (splitArgs line) 1)"
  let ?rest = "drop 2 (splitArgs line)"
  consider "?sub = ''init''" | "?sub = ''status''" | "?sub = ''add''" | "?sub = ''commit''"
    | "?sub = ''log''" | "?sub = ''branch''" | "?sub = ''checkout''" | "?sub = ''merge''"
    | "?sub = ''remote''" | "?sub = ''push''" | "?sub = ''pull''" | "?sub = ''clone''"
    | "?sub = ''stash''" | "?sub = ''reset''" | "?sub = ''revert''"
    | "?sub \<notin> set [''init'', ''status'', ''add'', ''commit'', ''log'', ''branch'', ''checkout'', ''merge'',
                     ''remote'', ''push'', ''pull'', ''clone'', ''stash'', ''reset'', ''revert'']"
    by auto
  then show ?thesis
  proof cases
    case 1
    with True have "runGit line store e s = lift store (gitInit s)"
      by (simp add: runGit_def)
    with assms show ?thesis
      by (simp add: lift_def gitInit_complete)
  next
    case 2
    with True have "runGit line store e s = lift store (gitStatus s)"
      by (simp add: runGit_def)
    with assms show ?thesis
      by (simp add: lift_def gitStatus_complete)
  next
    case 3
    with True have "runGit line store e s = lift store (gitAdd ?rest s)"
      by (simp add: runGit_def)
    with assms show ?thesis
      by (simp add: lift_def gitAdd_complete)
  next
    case 4
    with True have "runGit line store e s = lift store (gitCommit ?rest e s)"
      by (simp add: runGit_def)
    with assms show ?thesis
      by (simp add: lift_def gitCommit_complete)
  next
    case 5
    with True have "runGit line store e s = lift store (gitLog ?rest e s)"
      by (simp add: runGit_def)
    with assms show ?thesis
      by (simp add: lift_def gitLog_complete)
  next
    case 6
    with True have "runGit line store e s = lift store (gitBranch ?rest s)"
      by (simp add: runGit_def)
    with assms show ?thesis
      by (simp add: lift_def gitBranch_complete)
  next
    case 7
    with True have "runGit line store e s = lift store (gitCheckout ?rest s)"
      by (simp add: runGit_def)
    with assms show ?thesis
      by (simp add: lift_def gitCheckout_complete)
  next
    case 8
    with True have "runGit line store e s = lift store (gitMerge ?rest e s)"
      by (simp add: runGit_def)
    with assms show ?thesis
      by (simp add: lift_def gitMerge_complete)
  next
    case 9
    with True have "runGit line store e s = gitRemote ?rest store s"
      by (simp add: runGit_def)
    with assms show ?thesis
      by (simp add: gitRemote_complete)
  next
    case 10
    with True have "runGit line store e s = gitPush ?rest store s"
      by (simp add: runGit_def)
    with assms show ?thesis
      by (simp add: gitPush_complete)
  next
    case 11
    with True have "runGit line store e s = lift store (gitPull ?rest store e s)"
      by (simp add: runGit_def)
    with assms show ?thesis
      by (simp add: lift_def gitPull_complete)
  next
    case 12
    with True have "runGit line store e s = gitClone ?rest store s"
      by (simp add: runGit_def)
    with assms show ?thesis
      by (simp add: gitClone_complete)
  next
    case 13
    with True have "runGit line store e s = lift store (gitStash ?rest e s)"
      by (simp add: runGit_def)
    with assms show ?thesis
      by (simp add: lift_def gitStash_complete)
  next
    case 14
    with True have "runGit line store e s = lift store (gitReset ?rest s)"
      by (simp add: runGit_def)
    with assms show ?thesis
      by (simp add: lift_def gitReset_complete)
  next
    case 15
    with True have "runGit line store e s = lift store (gitRevert ?rest e s)"
      by (simp add: runGit_def)
    with assms show ?thesis
      by (simp add: lift_def gitRevert_complete)
  next
    case 16
    with True assms show ?thesis
      by (simp add: runGit_def)
  qed
qed

lemma exec_complete:
  assumes "order_complete s" and "store_complete store"
  shows "order_complete (fst (snd (exec line store e s)))
         \<and> store_complete (snd (snd (exec line store e s)))"
proof (cases "prefix ''git '' line")
  case True
  with assms show ?thesis
    by (simp add: exec_def runGit_complete)
next
  case False
  with assms show ?thesis
    by (simp add: exec_def lift_def runShell_complete)
qed

end
